theory Spec2Isabelle
  imports Complex_Main "HOL-Library.Multiset"
begin

section \<open>Livetime binning of MaLTPyNT (\<^verbatim>\<open>maltpynt/exposure.py\<close>)\<close>

text \<open>
  The embedding follows \<^verbatim>\<open>get_livetime_per_bin\<close> statement by statement.
  A float64 array is a \<^typ>\<open>real list\<close>: arithmetic is exact, so rounding is not
  part of the model. Every exception the Python code can raise is a value of the
  type \<open>error\<close>, returned as \<open>Inl\<close>. The argument \<^verbatim>\<open>times\<close> is written
  \<open>tms\<close>, since \<open>times\<close> is the multiplication of HOL.
\<close>

subsection \<open>Errors and arguments\<close>

datatype error = AssertionError | IndexError | ValueError | TypeError

text \<open>The optional argument \<^verbatim>\<open>dt\<close>: absent, one float, or an array.\<close>

datatype dt_arg = DtNone | DtScalar real | DtArray "real list"

text \<open>The optional argument \<^verbatim>\<open>gti\<close>: absent, or a list of intervals.\<close>

type_synonym gti_arg = "(real \<times> real) list option"

subsection \<open>The numpy operations the function uses\<close>

text \<open>The position that the index \<open>i\<close> denotes in \<open>xs\<close>: Python counts a negative
  index from the end.\<close>

definition norm_idx :: "'a list \<Rightarrow> int \<Rightarrow> nat" where
  "norm_idx xs i = nat (if i < 0 then int (length xs) + i else i)"

text \<open>\<^verbatim>\<open>xs[i]\<close>: IndexError unless \<open>-len(xs) \<le> i < len(xs)\<close>.\<close>

definition py_index :: "'a list \<Rightarrow> int \<Rightarrow> error + 'a" where
  "py_index xs i =
     (if - int (length xs) \<le> i \<and> i < int (length xs) then Inr (xs ! norm_idx xs i)
      else Inl IndexError)"

text \<open>Indexing with an integer array \<^verbatim>\<open>xs[idxs]\<close>: one IndexError if any index is
  out of range.\<close>

fun take_idx :: "'a list \<Rightarrow> int list \<Rightarrow> error + 'a list" where
  "take_idx xs [] = Inr []"
| "take_idx xs (i # js) =
     (case py_index xs i of
        Inl e \<Rightarrow> Inl e
      | Inr v \<Rightarrow> (case take_idx xs js of Inl e \<Rightarrow> Inl e | Inr vs \<Rightarrow> Inr (v # vs)))"

text \<open>The writes of \<^verbatim>\<open>xs[idxs] = vals\<close>, in order: a later write to the same
  position replaces an earlier one.\<close>

fun put_idx :: "'a list \<Rightarrow> int list \<Rightarrow> 'a list \<Rightarrow> 'a list" where
  "put_idx xs (i # js) (v # vs) = put_idx (xs[norm_idx xs i := v]) js vs"
| "put_idx xs _ _ = xs"

text \<open>\<^verbatim>\<open>xs[idxs] += vals\<close> is \<^verbatim>\<open>xs[idxs] = xs[idxs] + vals\<close>: the sums are
  computed from the array as it was, then written. An index that occurs twice
  keeps the last sum only.\<close>

definition iadd_at :: "real list \<Rightarrow> int list \<Rightarrow> real list \<Rightarrow> error + real list" where
  "iadd_at xs idxs vals =
     (case take_idx xs idxs of
        Inl e \<Rightarrow> Inl e
      | Inr old \<Rightarrow> Inr (put_idx xs idxs (map2 (+) old vals)))"

text \<open>\<^verbatim>\<open>np.diff\<close> and \<^verbatim>\<open>np.median\<close>. The median of an empty array is NaN, which is
  not a real number: it is \<open>None\<close> here.\<close>

definition np_diff :: "real list \<Rightarrow> real list" where
  "np_diff xs = map2 (\<lambda>a b. b - a) xs (tl xs)"

definition np_median :: "real list \<Rightarrow> real option" where
  "np_median xs =
     (let s = sort xs; n = length s
      in if n = 0 then None
         else if even n then Some ((s ! (n div 2 - 1) + s ! (n div 2)) / 2)
         else Some (s ! (n div 2)))"

text \<open>\<^verbatim>\<open>np.searchsorted(a, v, 'right')\<close> for an ascending \<open>a\<close>: the number of
  elements that are at most \<open>v\<close>. numpy documents no result for an array that is
  not ascending; in \<^verbatim>\<open>get_livetime_per_bin\<close> every result of a search is used
  only after \<^verbatim>\<open>np.histogram\<close> has accepted the same edges as ascending.\<close>

definition searchsorted_right :: "real list \<Rightarrow> real \<Rightarrow> int" where
  "searchsorted_right a v = int (length (filter (\<lambda>x. x \<le> v) a))"

text \<open>\<^verbatim>\<open>np.histogram(a, bins=edges, weights=w)\<close> with explicit edges: bin \<open>i\<close> is
  \<open>[edges[i], edges[i+1])\<close>, the last bin also holds its right edge, values outside
  every bin are dropped, and edges that decrease raise an exception (a ValueError;
  an AttributeError in old releases of numpy, which makes no difference to any
  statement below but the name).\<close>

definition in_bin :: "real list \<Rightarrow> nat \<Rightarrow> real \<Rightarrow> bool" where
  "in_bin edges i x \<longleftrightarrow>
     edges ! i \<le> x \<and> (x < edges ! Suc i \<or> (Suc (Suc i) = length edges \<and> x = edges ! Suc i))"

definition np_histogram :: "real list \<Rightarrow> real list \<Rightarrow> real list \<Rightarrow> error + real list" where
  "np_histogram a edges w =
     (if \<not> sorted edges then Inl ValueError
      else Inr (map (\<lambda>i. sum_list (map snd (filter (\<lambda>(x, y). in_bin edges i x) (zip a w))))
                  [0..<length edges - 1]))"

text \<open>\<^verbatim>\<open>xs += ys\<close> on arrays: \<open>ys\<close> must have the length of \<open>xs\<close> or length one.\<close>

definition iadd_array :: "real list \<Rightarrow> real list \<Rightarrow> error + real list" where
  "iadd_array xs ys =
     (if length ys = length xs then Inr (map2 (+) xs ys)
      else if length ys = 1 then Inr (map (\<lambda>x. x + hd ys) xs)
      else Inl ValueError)"

text \<open>\<^verbatim>\<open>xs - ys\<close> and the like on two arrays, with numpy's broadcasting of a
  one-element array.\<close>

definition broadcast2 :: "('a \<Rightarrow> 'b \<Rightarrow> 'c) \<Rightarrow> 'a list \<Rightarrow> 'b list \<Rightarrow> error + 'c list" where
  "broadcast2 f xs ys =
     (if length xs = length ys then Inr (map2 f xs ys)
      else if length xs = 1 then Inr (map (f (hd xs)) ys)
      else if length ys = 1 then Inr (map (\<lambda>x. f x (hd ys)) xs)
      else Inl ValueError)"

subsection \<open>Bin geometry (lines 49 to 69)\<close>

text \<open>Modelled from the spec: \<^verbatim>\<open>_assign_value_if_none(value, default)\<close> of
  \<^verbatim>\<open>maltpynt/base.py\<close> is not among the sources; section 4.1 says that the default
  is used exactly when \<^verbatim>\<open>dt\<close> is not supplied.

  \<open>resolve_dt\<close> is \<^verbatim>\<open>dt\<close> after lines 49 to 54: a scalar is added to
  \<^verbatim>\<open>np.zeros(len(times))\<close>, an array is kept. The result \<open>None\<close> stands for a
  non-empty array of NaN (no \<^verbatim>\<open>dt\<close> given and fewer than two times).\<close>

definition resolve_dt :: "real list \<Rightarrow> dt_arg \<Rightarrow> real list option" where
  "resolve_dt tms dt =
     (case dt of
        DtNone \<Rightarrow>
          (case np_median (np_diff tms) of
             None \<Rightarrow> (if tms = [] then Some [] else None)
           | Some d \<Rightarrow> Some (replicate (length tms) d))
      | DtScalar d \<Rightarrow> Some (replicate (length tms) d)
      | DtArray ds \<Rightarrow> Some ds)"

text \<open>One event of the working arrays \<^verbatim>\<open>ev_fl\<close>, \<^verbatim>\<open>pr_fl\<close> and
  \<^verbatim>\<open>livetime_starts\<close>, which the code always masks and indexes together.\<close>

record row =
  ev_fl :: real
  pr_fl :: real
  livetime_starts :: real

text \<open>Lines 57 to 61; \<open>e0\<close> is \<^verbatim>\<open>events[0]\<close>.\<close>

definition shift_rows :: "real \<Rightarrow> real list \<Rightarrow> real list \<Rightarrow> row list" where
  "shift_rows e0 events priors =
     map2 (\<lambda>e p. \<lparr>ev_fl = e - e0, pr_fl = p, livetime_starts = (e - e0) - p\<rparr>) events priors"

text \<open>Lines 65 to 67: the edges \<^verbatim>\<open>tbins\<close>.\<close>

definition make_tbins :: "real list \<Rightarrow> real list \<Rightarrow> real \<Rightarrow> error + real list" where
  "make_tbins tms dts e0 =
     (case broadcast2 (\<lambda>t d. t - d / 2) tms dts of
        Inl e \<Rightarrow> Inl e
      | Inr starts \<Rightarrow>
          if tms = [] \<or> dts = [] then Inl IndexError
          else Inr (map (\<lambda>x. x - e0) (starts @ [last tms + last dts / 2])))"

subsection \<open>Filter and clamping (lines 72 to 89)\<close>

definition eps :: real where
  "eps = 1 / 10 ^ 9"

definition in_range :: "real list \<Rightarrow> row \<Rightarrow> bool" where
  "in_range tbins r \<longleftrightarrow> ev_fl r > hd tbins \<and> livetime_starts r < last tbins"

definition clamp_start :: "real list \<Rightarrow> row \<Rightarrow> row" where
  "clamp_start tbins r =
     (if livetime_starts r < hd tbins \<and> ev_fl r > hd tbins
      then r\<lparr>livetime_starts := hd tbins + eps, pr_fl := ev_fl r - (hd tbins + eps)\<rparr>
      else r)"

definition clamp_end :: "real list \<Rightarrow> row \<Rightarrow> row" where
  "clamp_end tbins r =
     (if livetime_starts r < last tbins \<and> ev_fl r > last tbins
      then r\<lparr>ev_fl := last tbins - eps, pr_fl := (last tbins - eps) - livetime_starts r\<rparr>
      else r)"

definition normalize_rows :: "real list \<Rightarrow> row list \<Rightarrow> row list" where
  "normalize_rows tbins rows =
     map (clamp_end tbins \<circ> clamp_start tbins) (filter (in_range tbins) rows)"

subsection \<open>Bin assignment and accumulation (lines 94 to 138)\<close>

definition lts_bin :: "real list \<Rightarrow> row \<Rightarrow> int" where
  "lts_bin tbin_starts r = searchsorted_right tbin_starts (livetime_starts r) - 1"

definition ev_bin :: "real list \<Rightarrow> row \<Rightarrow> int" where
  "ev_bin tbin_starts r = searchsorted_right tbin_starts (ev_fl r) - 1"

text \<open>Lines 98 to 100. The assertion of line 102 is
  \<^verbatim>\<open>assert np.all(expo) >= 0\<close>: it compares the boolean \<^verbatim>\<open>np.all(expo)\<close> with
  zero, which holds for every \<^verbatim>\<open>expo\<close>, so it never raises and has no branch.\<close>

definition first_pass :: "real list \<Rightarrow> row list \<Rightarrow> error + real list" where
  "first_pass tbins rows =
     (let same = filter (\<lambda>r. ev_bin (butlast tbins) r = lts_bin (butlast tbins) r) rows
      in np_histogram (map ev_fl same) tbins (map pr_fl same))"

text \<open>Line 107: \<^verbatim>\<open>np.max\<close> of an empty array raises ValueError.\<close>

definition max_bin_diff :: "real list \<Rightarrow> row list \<Rightarrow> error + int" where
  "max_bin_diff tbin_starts rows =
     (if rows = [] then Inl ValueError
      else Inr (Max (set (map (\<lambda>r. ev_bin tbin_starts r - lts_bin tbin_starts r) rows))))"

text \<open>Lines 133 to 136: the loop \<^verbatim>\<open>for i in range(1, bin_diff)\<close>, here from \<open>i\<close>
  while \<open>i < bin_diff\<close>, counted by the number \<open>n\<close> of rounds left.\<close>

fun complete_bins :: "real list \<Rightarrow> int list \<Rightarrow> int \<Rightarrow> nat \<Rightarrow> real list \<Rightarrow> error + real list" where
  "complete_bins dts lbg i 0 la = Inr la"
| "complete_bins dts lbg i (Suc n) la =
     (case take_idx dts (map (\<lambda>b. b + i) lbg) of
        Inl e \<Rightarrow> Inl e
      | Inr widths \<Rightarrow>
          (case iadd_at la (map (\<lambda>b. b + i) lbg) widths of
             Inl e \<Rightarrow> Inl e
           | Inr la' \<Rightarrow> complete_bins dts lbg (i + 1) n la'))"

text \<open>Lines 110 to 136: the body of the loop over \<^verbatim>\<open>bin_diff\<close>.\<close>

definition span_pass :: "real list \<Rightarrow> real list \<Rightarrow> row list \<Rightarrow> nat \<Rightarrow> real list \<Rightarrow> error + real list" where
  "span_pass dts tbin_starts rows bin_diff la =
     (let good = filter (\<lambda>r. ev_bin tbin_starts r = lts_bin tbin_starts r + int bin_diff) rows;
          ev_bin_good = map (ev_bin tbin_starts) good;
          lts_bin_good = map (lts_bin tbin_starts) good;
          ev_good = map ev_fl good;
          lt_good = map livetime_starts good
      in case take_idx tbin_starts (map (\<lambda>x. searchsorted_right tbin_starts x - 1) ev_good) of
           Inl e \<Rightarrow> Inl e
         | Inr tb \<Rightarrow>
       (case iadd_at la ev_bin_good (map2 (-) ev_good tb) of
           Inl e \<Rightarrow> Inl e
         | Inr la1 \<Rightarrow>
       if \<not> list_all (\<lambda>d. d \<ge> 0) (map2 (-) ev_good tb) then Inl AssertionError
       else
       (case take_idx tbin_starts (map (searchsorted_right tbin_starts) lt_good) of
           Inl e \<Rightarrow> Inl e
         | Inr tb' \<Rightarrow>
       (case iadd_at la1 lts_bin_good (map2 (-) tb' lt_good) of
           Inl e \<Rightarrow> Inl e
         | Inr la2 \<Rightarrow>
       if \<not> list_all (\<lambda>d. d \<ge> 0) (map2 (-) tb' lt_good) then Inl AssertionError
       else complete_bins dts lts_bin_good 1 (bin_diff - 1) la2))))"

text \<open>Line 109: \<^verbatim>\<open>for bin_diff in range(max_bin_diff, 0, -1)\<close>.\<close>

fun span_loop :: "real list \<Rightarrow> real list \<Rightarrow> row list \<Rightarrow> nat \<Rightarrow> real list \<Rightarrow> error + real list" where
  "span_loop dts tbin_starts rows 0 la = Inr la"
| "span_loop dts tbin_starts rows (Suc k) la =
     (case span_pass dts tbin_starts rows (Suc k) la of
        Inl e \<Rightarrow> Inl e
      | Inr la' \<Rightarrow> span_loop dts tbin_starts rows k la')"

text \<open>Lines 77 and 94 to 138, on the filtered and clamped rows.\<close>

definition bin_rows :: "real list \<Rightarrow> real list \<Rightarrow> real list \<Rightarrow> row list \<Rightarrow> error + real list" where
  "bin_rows tms dts tbins rows =
     (case first_pass tbins rows of
        Inl e \<Rightarrow> Inl e
      | Inr expo \<Rightarrow>
     (case iadd_array (replicate (length tms) 0) expo of
        Inl e \<Rightarrow> Inl e
      | Inr la \<Rightarrow>
     (case max_bin_diff (butlast tbins) rows of
        Inl e \<Rightarrow> Inl e
      | Inr m \<Rightarrow> span_loop dts (butlast tbins) rows (nat m) la)))"

subsection \<open>The function\<close>

text \<open>Lines 57 to 67: the edges and the rows in the time frame whose origin is the
  first event \<^verbatim>\<open>events[0]\<close>.\<close>

definition shifted_frame ::
  "real list \<Rightarrow> real list \<Rightarrow> real list \<Rightarrow> real list \<Rightarrow> error + (real list \<times> row list)" where
  "shifted_frame tms dts events priors =
     (case make_tbins tms dts (hd events) of
        Inl e \<Rightarrow> Inl e
      | Inr tbins \<Rightarrow> Inr (tbins, shift_rows (hd events) events priors))"

text \<open>When \<open>resolve_dt\<close> is \<open>None\<close> every edge is NaN, every comparison of line 72
  is false, no event is left and \<^verbatim>\<open>np.max\<close> of line 107 raises ValueError.\<close>

definition get_livetime_per_bin ::
  "real list \<Rightarrow> real list \<Rightarrow> real list \<Rightarrow> dt_arg \<Rightarrow> gti_arg \<Rightarrow> error + real list" where
  "get_livetime_per_bin tms events priors dt gti =
     (if length events \<noteq> length priors then Inl AssertionError
      else if events = [] then Inl IndexError
      else case resolve_dt tms dt of
        None \<Rightarrow> Inl ValueError
      | Some dts \<Rightarrow>
          (case shifted_frame tms dts events priors of
             Inl e \<Rightarrow> Inl e
           | Inr (tbins, rows) \<Rightarrow> bin_rows tms dts tbins (normalize_rows tbins rows)))"

subsection \<open>The exposure correction (lines 196 to 294)\<close>

text \<open>\<^verbatim>\<open>get_exposure_from_uf\<close>, lines 218 to 238. The events and priors that
  \<^verbatim>\<open>load_events_and_gtis\<close> reads from the unfiltered event file are parameters.
  When the median is NaN the call passes NaN on, which \<open>resolve_dt\<close> treats as
  it treats an absent \<^verbatim>\<open>dt\<close> over fewer than two times.\<close>

definition get_exposure_from_uf ::
  "real list \<Rightarrow> real list \<Rightarrow> real list \<Rightarrow> dt_arg \<Rightarrow> gti_arg \<Rightarrow> error + real list" where
  "get_exposure_from_uf tms events priors dt gti =
     get_livetime_per_bin tms events priors
       (case dt of
          DtNone \<Rightarrow> (case np_median (np_diff tms) of None \<Rightarrow> DtNone | Some d \<Rightarrow> DtScalar d)
        | _ \<Rightarrow> dt)
       gti"

text \<open>A float64 quotient: division by zero gives an infinity or NaN, which is
  \<open>None\<close>; a product with a finite factor stays what it was.\<close>

definition fdiv :: "real \<Rightarrow> real \<Rightarrow> real option" where
  "fdiv x y = (if y = 0 then None else Some (x / y))"

definition fmul :: "real option \<Rightarrow> real \<Rightarrow> real option" where
  "fmul x d = map_option (\<lambda>v. v * d) x"

text \<open>\<^verbatim>\<open>correct_lightcurve\<close>, lines 279 to 291. The entries \<^verbatim>\<open>time\<close>,
  \<^verbatim>\<open>lc\<close>, \<^verbatim>\<open>dt\<close> and \<^verbatim>\<open>GTI\<close> of the light-curve file are parameters, and
  the result is the pair of the entries \<^verbatim>\<open>lc\<close> and \<^verbatim>\<open>expo\<close> written to
  \<^verbatim>\<open>outdata\<close>. Multiplying an array by \<^verbatim>\<open>None\<close> raises TypeError; a boolean
  mask of another length than the array raises IndexError.\<close>

definition correct_lightcurve ::
  "real list \<Rightarrow> real list \<Rightarrow> dt_arg \<Rightarrow> gti_arg \<Rightarrow> real list \<Rightarrow> real list \<Rightarrow> real
     \<Rightarrow> error + (real option list \<times> real list)" where
  "correct_lightcurve tms lc dt gti events priors expo_limit =
     (case get_exposure_from_uf tms events priors dt gti of
        Inl e \<Rightarrow> Inl e
      | Inr expo \<Rightarrow>
     (case broadcast2 fdiv lc expo of
        Inl e \<Rightarrow> Inl e
      | Inr quot \<Rightarrow>
     (case (case dt of
              DtNone \<Rightarrow> Inl TypeError
            | DtScalar d \<Rightarrow> Inr (map (\<lambda>q. fmul q d) quot)
            | DtArray ds \<Rightarrow> broadcast2 fmul quot ds) of
        Inl e \<Rightarrow> Inl e
      | Inr newlc \<Rightarrow>
          if length expo \<noteq> length newlc then Inl IndexError
          else Inr (map2 (\<lambda>v x. if x < expo_limit then Some 0 else v) newlc expo, expo))))"

subsection \<open>Two notions for the proofs\<close>

text \<open>Not part of the program: a row moved by \<open>c\<close> in time. The binning does not
  depend on the origin of the time frame, which is stated with it.\<close>

definition move :: "real \<Rightarrow> row \<Rightarrow> row" where
  "move c r = r\<lparr>ev_fl := ev_fl r + c, livetime_starts := livetime_starts r + c\<rparr>"

text \<open>Not part of the program: the length of the part of the livetime interval of
  a row that lies between \<open>lo\<close> and \<open>hi\<close>, zero when there is none. The lemmas on
  the upper bound of a bin are stated with it.\<close>

definition overlap :: "real \<Rightarrow> real \<Rightarrow> row \<Rightarrow> real" where
  "overlap lo hi r = max 0 (min (ev_fl r) hi - max (livetime_starts r) lo)"

section \<open>Properties\<close>

text \<open>The function with its stages written out.\<close>

lemma get_livetime_per_bin_stages:
  "get_livetime_per_bin tms events priors dt gti =
     (if length events \<noteq> length priors then Inl AssertionError
      else if events = [] then Inl IndexError
      else case resolve_dt tms dt of
        None \<Rightarrow> Inl ValueError
      | Some dts \<Rightarrow>
          (case make_tbins tms dts (hd events) of
             Inl e \<Rightarrow> Inl e
           | Inr tbins \<Rightarrow>
               bin_rows tms dts tbins
                 (normalize_rows tbins (shift_rows (hd events) events priors))))"
  by (simp add: get_livetime_per_bin_def shifted_frame_def split: option.splits sum.splits)

text \<open>The equations that a call on concrete arrays unfolds.\<close>

lemmas run_defs =
  get_livetime_per_bin_stages resolve_dt_def make_tbins_def broadcast2_def
  shift_rows_def normalize_rows_def in_range_def clamp_start_def clamp_end_def eps_def
  bin_rows_def first_pass_def np_histogram_def in_bin_def ev_bin_def lts_bin_def
  searchsorted_right_def iadd_array_def max_bin_diff_def span_pass_def iadd_at_def
  py_index_def norm_idx_def np_median_def np_diff_def Let_def

subsection \<open>Basic facts about the stages\<close>


lemma sorted_shift_iff: "sorted (map (\<lambda>x. x - c) xs) = sorted (xs :: real list)"
  by (induction xs) auto

lemma map2_replicate_right:
  "length xs = n \<Longrightarrow> map2 f xs (replicate n d) = map (\<lambda>x. f x d) xs"
  by (induction xs arbitrary: n) auto

lemma make_tbins_replicate:
  "make_tbins tms (replicate (length tms) d) e0 =
     (if tms = [] then Inl IndexError
      else Inr (map (\<lambda>x. x - e0) (map (\<lambda>t. t - d / 2) tms @ [last tms + d / 2])))"
  by (simp add: make_tbins_def broadcast2_def map2_replicate_right)

lemma bin_rows_unsorted: "\<not> sorted tbins \<Longrightarrow> bin_rows tms dts tbins rows = Inl ValueError"
  by (simp add: bin_rows_def first_pass_def np_histogram_def Let_def)

lemma unsorted_edges:
  "\<not> sorted tms \<Longrightarrow> \<not> sorted (map (\<lambda>x. x - e0) (map (\<lambda>t. t - d / 2) tms @ [y :: real]))"
  by (simp add: sorted_shift_iff sorted_append del: map_append map_map)

lemma bin_rows_no_rows: "bin_rows tms dts tbins [] = Inl ValueError"
  by (simp add: bin_rows_def first_pass_def np_histogram_def iadd_array_def max_bin_diff_def
      split: sum.splits)

lemma hd_map2: "xs \<noteq> [] \<Longrightarrow> ys \<noteq> [] \<Longrightarrow> hd (map2 f xs ys) = f (hd xs) (hd ys)"
  by (cases xs; cases ys) auto

lemma broadcast2_hd:
  "broadcast2 f xs ys = Inr zs \<Longrightarrow> xs \<noteq> [] \<Longrightarrow> ys \<noteq> [] \<Longrightarrow>
     zs \<noteq> [] \<and> hd zs = f (hd xs) (hd ys)"
  by (cases xs; cases ys) (auto simp: broadcast2_def split: if_splits)

lemma make_tbins_ends:
  assumes "make_tbins tms dts e0 = Inr tbins"
  shows "hd tbins = hd tms - hd dts / 2 - e0" and "last tbins = last tms + last dts / 2 - e0"
    and "tbins \<noteq> []" and "tms \<noteq> []" and "dts \<noteq> []"
  using assms broadcast2_hd [of "\<lambda>t d. t - d / 2" tms dts]
  by (auto simp: make_tbins_def hd_append hd_map split: sum.splits if_splits)

lemma make_tbins_error:
  "make_tbins tms dts e0 = Inl e \<Longrightarrow> tms \<noteq> [] \<Longrightarrow> dts \<noteq> [] \<Longrightarrow> e = ValueError"
  by (auto simp: make_tbins_def broadcast2_def split: sum.splits if_splits)

lemma shift_rows_set:
  "r \<in> set (shift_rows e0 events priors) \<Longrightarrow>
     \<exists>e p. (e, p) \<in> set (zip events priors) \<and>
       ev_fl r = e - e0 \<and> livetime_starts r = e - e0 - p \<and> pr_fl r = p"
  by (auto simp: shift_rows_def)

lemma put_idx_length: "length (put_idx xs idxs vs) = length xs"
  by (induction xs idxs vs rule: put_idx.induct) simp_all

lemma iadd_at_length: "iadd_at xs idxs vals = Inr ys \<Longrightarrow> length ys = length xs"
  by (auto simp: iadd_at_def put_idx_length split: sum.splits)

lemma complete_bins_length:
  "complete_bins dts lbg i n la = Inr la' \<Longrightarrow> length la' = length la"
proof (induction n arbitrary: i la)
  case 0
  then show ?case by simp
next
  case (Suc n)
  then show ?case
    by (auto split: sum.splits dest!: iadd_at_length)
qed

lemma span_pass_length:
  "span_pass dts ts rows k la = Inr la' \<Longrightarrow> length la' = length la"
  by (auto simp: span_pass_def Let_def split: sum.splits if_splits
      dest!: iadd_at_length complete_bins_length)

lemma span_loop_length:
  "span_loop dts ts rows k la = Inr la' \<Longrightarrow> length la' = length la"
proof (induction k arbitrary: la)
  case 0
  then show ?case by simp
next
  case (Suc k)
  then show ?case
    by (auto split: sum.splits dest!: span_pass_length)
qed

lemma iadd_array_length: "iadd_array xs ys = Inr zs \<Longrightarrow> length zs = length xs"
  by (auto simp: iadd_array_def split: if_splits)

lemma bin_rows_length: "bin_rows tms dts tbins rows = Inr la \<Longrightarrow> length la = length tms"
  by (auto simp: bin_rows_def split: sum.splits dest!: iadd_array_length span_loop_length)

lemma get_livetime_per_bin_length:
  "get_livetime_per_bin tms events priors dt gti = Inr la \<Longrightarrow> length la = length tms"
  by (auto simp: get_livetime_per_bin_stages split: if_splits option.splits sum.splits
      dest: bin_rows_length)

subsection \<open>Concrete runs\<close>

text \<open>
  C2. On \<^verbatim>\<open>times=[0.5, 1.5, 2.5]\<close>, \<^verbatim>\<open>events=[2.2]\<close>, \<^verbatim>\<open>priors=[1.5]\<close>,
  \<^verbatim>\<open>dt=1.0\<close> the function returns \<^verbatim>\<open>[0.3, 1.0, 0.2]\<close>: the first bin gets the
  part from 0.7 to the edge at 1.0, the second its whole width, the third the part
  from the edge at 2.0 to the event; the three add up to the prior 1.5.
\<close>

theorem scenario_three_bins:
  "get_livetime_per_bin [0.5, 1.5, 2.5] [2.2] [1.5] (DtScalar 1.0) None = Inr [0.3, 1.0, 0.2]
   \<and> sum_list [0.3, 1.0, 0.2 :: real] = 1.5"
  by (simp add: run_defs numeral_nat)

text \<open>
  C4. A negative contribution of the same-bin path is not reported. With edges
  0, 1, 2 and one event at \<open>5e-10\<close> with prior 1, the livetime start is clamped to
  \<open>1e-9\<close>, the prior becomes \<open>-5e-10\<close>, event and start fall into bin 0, and the
  function returns that negative value as the livetime of bin 0.
\<close>

theorem same_bin_negative_returned:
  "get_livetime_per_bin [0.5, 1.5] [5 / 10 ^ 10] [1] (DtScalar 1) None
     = Inr [- (5 / 10 ^ 10), 0]"
  by (simp add: run_defs numeral_nat)

subsection \<open>Bin geometry\<close>

lemma filter_count_sort:
  "length (filter P (sort xs)) = length (filter P (xs :: real list))"
proof -
  have "mset (filter P (sort xs)) = mset (filter P xs)"
    by (simp only: mset_filter mset_sort)
  then show ?thesis by (metis size_mset)
qed

lemma sorted_count_le:
  assumes "sorted (s :: real list)" "k < length s" "s ! k \<le> m"
  shows "Suc k \<le> length (filter (\<lambda>x. x \<le> m) s)"
proof -
  have "\<forall>x \<in> set (take (Suc k) s). x \<le> m"
  proof
    fix x assume "x \<in> set (take (Suc k) s)"
    then obtain i where "i < Suc k" "i < length s" "x = s ! i"
      by (auto simp: in_set_conv_nth)
    with assms show "x \<le> m"
      using sorted_nth_mono [of s i k] by auto
  qed
  then have "filter (\<lambda>x. x \<le> m) (take (Suc k) s) = take (Suc k) s"
    by (simp add: filter_id_conv)
  moreover have "filter (\<lambda>x. x \<le> m) s =
      filter (\<lambda>x. x \<le> m) (take (Suc k) s) @ filter (\<lambda>x. x \<le> m) (drop (Suc k) s)"
    by (metis append_take_drop_id filter_append)
  ultimately show ?thesis using assms(2) by simp
qed

lemma sorted_count_ge:
  assumes "sorted (s :: real list)" "k < length s" "m \<le> s ! k"
  shows "length s - k \<le> length (filter (\<lambda>x. m \<le> x) s)"
proof -
  have "\<forall>x \<in> set (drop k s). m \<le> x"
  proof
    fix x assume "x \<in> set (drop k s)"
    then obtain i where i: "i < length s - k" "x = s ! (k + i)"
      by (auto simp: in_set_conv_nth)
    then have "k + i < length s" by simp
    then have "s ! k \<le> s ! (k + i)"
      using sorted_nth_mono [OF assms(1), of k "k + i"] by simp
    with assms(3) i(2) show "m \<le> x" by simp
  qed
  then have "filter (\<lambda>x. m \<le> x) (drop k s) = drop k s"
    by (simp add: filter_id_conv)
  moreover have "filter (\<lambda>x. m \<le> x) s =
      filter (\<lambda>x. m \<le> x) (take k s) @ filter (\<lambda>x. m \<le> x) (drop k s)"
    by (metis append_take_drop_id filter_append)
  ultimately show ?thesis by simp
qed

lemma np_median_is_median:
  assumes "np_median xs = Some m"
  shows "length xs \<le> 2 * length (filter (\<lambda>x. x \<le> m) xs)"
    and "length xs \<le> 2 * length (filter (\<lambda>x. m \<le> x) xs)"
proof -
  let ?s = "sort xs" and ?n = "length xs"
  have s: "sorted ?s" "length ?s = ?n" by simp_all
  have med: "np_median xs =
      (if ?n = 0 then None
       else if even ?n then Some ((?s ! (?n div 2 - 1) + ?s ! (?n div 2)) / 2)
       else Some (?s ! (?n div 2)))"
    unfolding np_median_def Let_def length_sort ..
  from assms med have n: "?n \<noteq> 0" by (auto split: if_splits)
  have "length xs \<le> 2 * length (filter (\<lambda>x. x \<le> m) ?s) \<and>
        length xs \<le> 2 * length (filter (\<lambda>x. m \<le> x) ?s)"
  proof (cases "even ?n")
    case True
    then obtain k where k: "?n = 2 * k" by (auto elim: evenE)
    with n have k0: "0 < k" by simp
    from assms True n k have m: "m = (?s ! (k - 1) + ?s ! k) / 2"
      unfolding med by simp
    have "?s ! (k - 1) \<le> ?s ! k"
      using sorted_nth_mono [OF s(1), of "k - 1" k] k k0 by simp
    with m have lo: "?s ! (k - 1) \<le> m" and hi: "m \<le> ?s ! k" by simp_all
    have "Suc (k - 1) \<le> length (filter (\<lambda>x. x \<le> m) ?s)"
      using sorted_count_le [OF s(1) _ lo] k k0 by simp
    moreover have "length ?s - k \<le> length (filter (\<lambda>x. m \<le> x) ?s)"
      using sorted_count_ge [OF s(1) _ hi] k k0 by simp
    ultimately show ?thesis using k k0 by simp
  next
    case False
    then obtain k where k: "?n = 2 * k + 1" by (auto elim: oddE)
    from assms False n k have m: "m = ?s ! k"
      unfolding med by simp
    have "Suc k \<le> length (filter (\<lambda>x. x \<le> m) ?s)"
      using sorted_count_le [OF s(1), of k m] k m by simp
    moreover have "length ?s - k \<le> length (filter (\<lambda>x. m \<le> x) ?s)"
      using sorted_count_ge [OF s(1), of k m] k m by simp
    ultimately show ?thesis using k by simp
  qed
  then show "length xs \<le> 2 * length (filter (\<lambda>x. x \<le> m) xs)"
    and "length xs \<le> 2 * length (filter (\<lambda>x. m \<le> x) xs)"
    by (simp_all add: filter_count_sort)
qed

lemma np_diff_length: "length (np_diff xs) = length xs - 1"
  by (simp add: np_diff_def)

lemma np_diff_nth: "Suc i < length xs \<Longrightarrow> np_diff xs ! i = xs ! Suc i - xs ! i"
  by (simp add: np_diff_def nth_tl)

lemma np_median_Some:
  assumes "xs \<noteq> []"
  shows "\<exists>m. np_median xs = Some m"
proof -
  let ?s = "sort xs" and ?n = "length xs"
  from assms have n: "?n \<noteq> 0" by simp
  show ?thesis
  proof (cases "even ?n")
    case True
    with n have "np_median xs = Some ((?s ! (?n div 2 - 1) + ?s ! (?n div 2)) / 2)"
      unfolding np_median_def Let_def length_sort by (simp only: if_False if_True)
    then show ?thesis ..
  next
    case False
    with n have "np_median xs = Some (?s ! (?n div 2))"
      unfolding np_median_def Let_def length_sort by (simp only: if_False if_True)
    then show ?thesis ..
  qed
qed

lemma make_tbins_same_length:
  "length dts = length tms \<Longrightarrow> tms \<noteq> [] \<Longrightarrow>
     make_tbins tms dts e0 =
       Inr (map (\<lambda>x. x - e0) (map2 (\<lambda>t d. t - d / 2) tms dts @ [last tms + last dts / 2]))"
  by (auto simp: make_tbins_def broadcast2_def)

lemma shift_rows_length:
  "length events = length priors \<Longrightarrow> length (shift_rows e0 events priors) = length events"
  by (simp add: shift_rows_def)

lemma shift_rows_nth:
  "length events = length priors \<Longrightarrow> j < length events \<Longrightarrow>
     shift_rows e0 events priors ! j =
       \<lparr>ev_fl = events ! j - e0, pr_fl = priors ! j, livetime_starts = events ! j - e0 - priors ! j\<rparr>"
  by (simp add: shift_rows_def)

lemma np_diff_pointwise:
  "np_diff tms = map (\<lambda>i. tms ! Suc i - tms ! i) [0..<length tms - 1]"
  by (rule nth_equalityI) (simp_all add: np_diff_length np_diff_nth)

lemma np_median_sorted:
  assumes "xs \<noteq> []"
  shows "np_median xs =
     Some (if even (length xs)
           then (sort xs ! (length xs div 2 - 1) + sort xs ! (length xs div 2)) / 2
           else sort xs ! (length xs div 2))"
proof -
  from assms have n: "length xs \<noteq> 0" by simp
  show ?thesis
    unfolding np_median_def Let_def length_sort using n
    by (simp only: if_False split: if_splits) simp
qed

text \<open>
  C7. When \<^verbatim>\<open>dt\<close> is not supplied it is the median of the consecutive
  differences \<^verbatim>\<open>times[i+1] - times[i]\<close>: with the differences in ascending order
  \<open>s\<close>, the middle one when their number is odd and the mean of the two middle ones
  when it is even; this value is repeated for every bin. A scalar \<^verbatim>\<open>dt\<close> is
  repeated \<^verbatim>\<open>len(times)\<close> times and an array is taken as it is. Lines 57 to 67
  then produce \<^verbatim>\<open>len(times) + 1\<close> edges and one row per event, all relative to
  \<^verbatim>\<open>events[0]\<close>: edge \<open>i\<close> is \<^verbatim>\<open>times[i] - dt[i]/2 - events[0]\<close>, the last one is
  \<^verbatim>\<open>times[-1] + dt[-1]/2 - events[0]\<close>, event \<open>j\<close> is at \<^verbatim>\<open>events[j] - events[0]\<close>
  and its livetime starts at \<^verbatim>\<open>events[j] - events[0] - priors[j]\<close>. The result of
  the function is the binning of these rows on these edges.
\<close>

theorem bin_geometry:
  assumes len: "length events = length priors" and ev: "events \<noteq> []" and tm: "tms \<noteq> []"
    and dt: "(dt = DtNone \<and> 2 \<le> length tms) \<or> (\<exists>d. dt = DtScalar d) \<or>
             (\<exists>ds. dt = DtArray ds \<and> length ds = length tms)"
  shows "\<exists>dts tbins rows.
     resolve_dt tms dt = Some dts \<and> length dts = length tms \<and>
     (dt = DtNone \<longrightarrow>
        (\<exists>s. sorted s \<and>
           mset s = mset (map (\<lambda>i. tms ! Suc i - tms ! i) [0..<length tms - 1]) \<and>
           dts = replicate (length tms)
             (if even (length s) then (s ! (length s div 2 - 1) + s ! (length s div 2)) / 2
              else s ! (length s div 2)))) \<and>
     (\<forall>d. dt = DtScalar d \<longrightarrow> dts = replicate (length tms) d) \<and>
     (\<forall>ds. dt = DtArray ds \<longrightarrow> dts = ds) \<and>
     shifted_frame tms dts events priors = Inr (tbins, rows) \<and>
     length tbins = length tms + 1 \<and>
     (\<forall>i < length tms. tbins ! i = tms ! i - dts ! i / 2 - events ! 0) \<and>
     tbins ! length tms =
        tms ! (length tms - 1) + dts ! (length tms - 1) / 2 - events ! 0 \<and>
     length rows = length events \<and>
     (\<forall>j < length events.
        ev_fl (rows ! j) = events ! j - events ! 0 \<and>
        pr_fl (rows ! j) = priors ! j \<and>
        livetime_starts (rows ! j) = events ! j - events ! 0 - priors ! j) \<and>
     get_livetime_per_bin tms events priors dt gti =
        bin_rows tms dts tbins (normalize_rows tbins rows)"
proof -
  let ?diffs = "map (\<lambda>i. tms ! Suc i - tms ! i) [0..<length tms - 1]"
  from dt obtain dts where dts: "resolve_dt tms dt = Some dts" "length dts = length tms"
    and med: "dt = DtNone \<longrightarrow>
        (\<exists>s. sorted s \<and> mset s = mset ?diffs \<and>
           dts = replicate (length tms)
             (if even (length s) then (s ! (length s div 2 - 1) + s ! (length s div 2)) / 2
              else s ! (length s div 2)))"
    and sc: "\<forall>d. dt = DtScalar d \<longrightarrow> dts = replicate (length tms) d"
    and ar: "\<forall>ds. dt = DtArray ds \<longrightarrow> dts = ds"
  proof (elim disjE conjE exE)
    assume a: "dt = DtNone" "2 \<le> length tms"
    then have "length ?diffs \<noteq> 0" by simp
    then have ne: "?diffs \<noteq> []" by (simp del: map_is_Nil_conv length_map)
    let ?s = "sort ?diffs"
    let ?m = "if even (length ?s) then (?s ! (length ?s div 2 - 1) + ?s ! (length ?s div 2)) / 2
              else ?s ! (length ?s div 2)"
    have m: "np_median (np_diff tms) = Some ?m"
      unfolding np_diff_pointwise np_median_sorted [OF ne] length_sort ..
    have "sorted ?s \<and> mset ?s = mset ?diffs \<and>
        replicate (length tms) ?m = replicate (length tms) ?m"
      by simp
    then have ex: "\<exists>s. sorted s \<and> mset s = mset ?diffs \<and>
           replicate (length tms) ?m = replicate (length tms)
             (if even (length s) then (s ! (length s div 2 - 1) + s ! (length s div 2)) / 2
              else s ! (length s div 2))"
      by (rule exI [of _ ?s])
    show thesis
    proof (rule that [of "replicate (length tms) ?m"])
      show "resolve_dt tms dt = Some (replicate (length tms) ?m)"
        using a m by (simp only: resolve_dt_def dt_arg.case option.case)
      show "length (replicate (length tms) ?m) = length tms" by simp
      show "dt = DtNone \<longrightarrow>
        (\<exists>s. sorted s \<and> mset s = mset ?diffs \<and>
           replicate (length tms) ?m = replicate (length tms)
             (if even (length s) then (s ! (length s div 2 - 1) + s ! (length s div 2)) / 2
              else s ! (length s div 2)))"
        using ex by blast
      show "\<forall>d. dt = DtScalar d \<longrightarrow> replicate (length tms) ?m = replicate (length tms) d"
        using a by simp
      show "\<forall>ds. dt = DtArray ds \<longrightarrow> replicate (length tms) ?m = ds" using a by simp
    qed
  next
    fix d assume "dt = DtScalar d"
    then show thesis
      by (intro that [of "replicate (length tms) d"]) (auto simp: resolve_dt_def)
  next
    fix ds assume "dt = DtArray ds" "length ds = length tms"
    then show thesis
      by (intro that [of ds]) (auto simp: resolve_dt_def)
  qed
  let ?e0 = "events ! 0"
  let ?tbins = "map (\<lambda>x. x - ?e0) (map2 (\<lambda>t d. t - d / 2) tms dts @ [last tms + last dts / 2])"
  let ?rows = "shift_rows ?e0 events priors"
  have hd0: "hd events = ?e0" using ev by (simp add: hd_conv_nth)
  have mk: "make_tbins tms dts ?e0 = Inr ?tbins"
    using make_tbins_same_length [OF dts(2) tm] .
  have fr: "shifted_frame tms dts events priors = Inr (?tbins, ?rows)"
    by (simp only: shifted_frame_def hd0 mk sum.case)
  have l: "length ?tbins = length tms + 1" using dts(2) by simp
  have dn: "dts \<noteq> []" using dts(2) tm by auto
  have nth: "\<forall>i < length tms. ?tbins ! i = tms ! i - dts ! i / 2 - ?e0"
    using dts(2) by (auto simp: nth_append)
  have lst: "?tbins ! length tms = tms ! (length tms - 1) + dts ! (length tms - 1) / 2 - ?e0"
    using dts(2) tm dn by (simp add: nth_append last_conv_nth)
  have rows: "\<forall>j < length events.
        ev_fl (?rows ! j) = events ! j - ?e0 \<and> pr_fl (?rows ! j) = priors ! j \<and>
        livetime_starts (?rows ! j) = events ! j - ?e0 - priors ! j"
    using len by (simp add: shift_rows_nth)
  have run: "get_livetime_per_bin tms events priors dt gti =
        bin_rows tms dts ?tbins (normalize_rows ?tbins ?rows)"
    using len ev dts(1) mk by (simp add: get_livetime_per_bin_stages hd0)
  show ?thesis
    apply (rule exI [of _ dts], rule exI [of _ ?tbins], rule exI [of _ ?rows])
    using dts med sc ar fr l nth lst rows run shift_rows_length [OF len, of ?e0] by blast
qed

text \<open>Instances. Without \<^verbatim>\<open>dt\<close>, the times 0.5, 1.5, 3.5 have the differences 1
  and 2, so every width is 1.5, and the events 2.2 and 3 put the origin at 2.2.
  Without \<^verbatim>\<open>dt\<close>, the times 0, 4, 5, 7 have the differences 4, 1, 2, so every
  width is 2. With the scalar 1, the times 0.5, 1.5 and one event at 0.3 with the
  prior 0.7.\<close>

theorem bin_geometry_witness:
  "(\<exists>dts tbins rows.
     resolve_dt [0.5, 1.5, 3.5] DtNone = Some dts \<and> dts = [1.5, 1.5, 1.5] \<and>
     shifted_frame [0.5, 1.5, 3.5] dts [2.2, 3] [1.5, 0.5] = Inr (tbins, rows) \<and>
     length tbins = 4 \<and> tbins ! 0 = 0.5 - 0.75 - 2.2 \<and> tbins ! 1 = 1.5 - 0.75 - 2.2 \<and>
     tbins ! 2 = 3.5 - 0.75 - 2.2 \<and> tbins ! 3 = 3.5 + 0.75 - 2.2 \<and>
     length rows = 2 \<and> ev_fl (rows ! 0) = 0 \<and> livetime_starts (rows ! 0) = - 1.5 \<and>
     ev_fl (rows ! 1) = 3 - 2.2 \<and> pr_fl (rows ! 1) = 0.5 \<and>
     livetime_starts (rows ! 1) = 3 - 2.2 - 0.5 \<and>
     get_livetime_per_bin [0.5, 1.5, 3.5] [2.2, 3] [1.5, 0.5] DtNone None =
       bin_rows [0.5, 1.5, 3.5] dts tbins (normalize_rows tbins rows)) \<and>
   resolve_dt [0, 4, 5, 7] DtNone = Some [2, 2, 2, 2] \<and>
   (\<exists>tbins rows.
     resolve_dt [0.5, 1.5] (DtScalar 1) = Some [1, 1] \<and>
     shifted_frame [0.5, 1.5] [1, 1] [0.3] [0.7] = Inr (tbins, rows) \<and>
     length tbins = 3 \<and> tbins ! 0 = 0 - 0.3 \<and> tbins ! 1 = 1 - 0.3 \<and> tbins ! 2 = 2 - 0.3 \<and>
     length rows = 1 \<and> ev_fl (rows ! 0) = 0 \<and> pr_fl (rows ! 0) = 0.7 \<and>
     livetime_starts (rows ! 0) = - 0.7)"
proof -
  let ?tms = "[0.5, 1.5, 3.5 :: real]"
  let ?ev = "[2.2, 3 :: real]" and ?pr = "[1.5, 0.5 :: real]"
  have h: "length ?ev = length ?pr" "?ev \<noteq> []" "?tms \<noteq> []"
    "(DtNone = DtNone \<and> 2 \<le> length ?tms) \<or> (\<exists>d. DtNone = DtScalar d) \<or>
     (\<exists>ds. DtNone = DtArray ds \<and> length ds = length ?tms)"
    by simp_all
  from bin_geometry [OF h, of None]
  obtain dts tbins rows s where
    r: "resolve_dt ?tms DtNone = Some dts"
    and s: "sorted s" "mset s = mset (map (\<lambda>i. ?tms ! Suc i - ?tms ! i) [0..<length ?tms - 1])"
    and d: "dts = replicate (length ?tms)
             (if even (length s) then (s ! (length s div 2 - 1) + s ! (length s div 2)) / 2
              else s ! (length s div 2))"
    and f: "shifted_frame ?tms dts ?ev ?pr = Inr (tbins, rows)"
    and t: "length tbins = length ?tms + 1"
      "\<forall>i < length ?tms. tbins ! i = ?tms ! i - dts ! i / 2 - ?ev ! 0"
      "tbins ! length ?tms = ?tms ! (length ?tms - 1) + dts ! (length ?tms - 1) / 2 - ?ev ! 0"
    and w: "length rows = length ?ev"
      "\<forall>j < length ?ev. ev_fl (rows ! j) = ?ev ! j - ?ev ! 0 \<and> pr_fl (rows ! j) = ?pr ! j \<and>
        livetime_starts (rows ! j) = ?ev ! j - ?ev ! 0 - ?pr ! j"
    and g: "get_livetime_per_bin ?tms ?ev ?pr DtNone None =
        bin_rows ?tms dts tbins (normalize_rows tbins rows)"
    by blast
  have "map (\<lambda>i. ?tms ! Suc i - ?tms ! i) [0..<length ?tms - 1] = [1, 2]"
    by (simp add: numeral_nat)
  with s have "sort [1, 2 :: real] = s" by (intro properties_for_sort) simp_all
  then have s12: "s = [1, 2]" by simp
  have dts: "dts = [1.5, 1.5, 1.5]" unfolding d s12 by (simp add: numeral_nat)
  have tb: "tbins ! 0 = 0.5 - 0.75 - 2.2" "tbins ! 1 = 1.5 - 0.75 - 2.2"
    "tbins ! 2 = 3.5 - 0.75 - 2.2" "tbins ! 3 = 3.5 + 0.75 - 2.2"
    using t(2,3) unfolding dts by (simp_all add: numeral_nat)
  have rw: "ev_fl (rows ! 0) = 0" "livetime_starts (rows ! 0) = - 1.5"
    "ev_fl (rows ! 1) = 3 - 2.2" "pr_fl (rows ! 1) = 0.5"
    "livetime_starts (rows ! 1) = 3 - 2.2 - 0.5"
    using w(2) by (simp_all add: numeral_nat)
  from r dts f t(1) tb w(1) rw g have 1: "\<exists>dts tbins rows.
     resolve_dt [0.5, 1.5, 3.5] DtNone = Some dts \<and> dts = [1.5, 1.5, 1.5] \<and>
     shifted_frame [0.5, 1.5, 3.5] dts [2.2, 3] [1.5, 0.5] = Inr (tbins, rows) \<and>
     length tbins = 4 \<and> tbins ! 0 = 0.5 - 0.75 - 2.2 \<and> tbins ! 1 = 1.5 - 0.75 - 2.2 \<and>
     tbins ! 2 = 3.5 - 0.75 - 2.2 \<and> tbins ! 3 = 3.5 + 0.75 - 2.2 \<and>
     length rows = 2 \<and> ev_fl (rows ! 0) = 0 \<and> livetime_starts (rows ! 0) = - 1.5 \<and>
     ev_fl (rows ! 1) = 3 - 2.2 \<and> pr_fl (rows ! 1) = 0.5 \<and>
     livetime_starts (rows ! 1) = 3 - 2.2 - 0.5 \<and>
     get_livetime_per_bin [0.5, 1.5, 3.5] [2.2, 3] [1.5, 0.5] DtNone None =
       bin_rows [0.5, 1.5, 3.5] dts tbins (normalize_rows tbins rows)"
    by auto
  let ?tm4 = "[0, 4, 5, 7 :: real]"
  have h4: "length [0::real] = length [0::real]" "[0::real] \<noteq> []" "?tm4 \<noteq> []"
    "(DtNone = DtNone \<and> 2 \<le> length ?tm4) \<or> (\<exists>d. DtNone = DtScalar d) \<or>
     (\<exists>ds. DtNone = DtArray ds \<and> length ds = length ?tm4)"
    by simp_all
  from bin_geometry [OF h4, of None]
  obtain dts4 s4 where
    r4: "resolve_dt ?tm4 DtNone = Some dts4"
    and s4: "sorted s4" "mset s4 = mset (map (\<lambda>i. ?tm4 ! Suc i - ?tm4 ! i) [0..<length ?tm4 - 1])"
    and d4: "dts4 = replicate (length ?tm4)
             (if even (length s4) then (s4 ! (length s4 div 2 - 1) + s4 ! (length s4 div 2)) / 2
              else s4 ! (length s4 div 2))"
    by blast
  have "map (\<lambda>i. ?tm4 ! Suc i - ?tm4 ! i) [0..<length ?tm4 - 1] = [4, 1, 2]"
    by (simp add: numeral_nat)
  with s4 have "sort [4, 1, 2 :: real] = s4" by (intro properties_for_sort) simp_all
  then have s124: "s4 = [1, 2, 4]" by simp
  have k: "length [1, 2, 4 :: real] div 2 = 1" by simp
  have o: "even (length [1, 2, 4 :: real]) = False" by simp
  have "dts4 = [2, 2, 2, 2]" unfolding d4 s124 o k if_False by (simp add: numeral_nat)
  with r4 have 2: "resolve_dt [0, 4, 5, 7] DtNone = Some [2, 2, 2, 2]" by simp
  let ?tm2 = "[0.5, 1.5 :: real]"
  have h2: "length [0.3::real] = length [0.7::real]" "[0.3::real] \<noteq> []" "?tm2 \<noteq> []"
    "(DtScalar 1 = DtNone \<and> 2 \<le> length ?tm2) \<or> (\<exists>d. DtScalar 1 = DtScalar d) \<or>
     (\<exists>ds. DtScalar 1 = DtArray ds \<and> length ds = length ?tm2)"
    by simp_all
  from bin_geometry [OF h2, of None]
  obtain dts2 tbins2 rows2 where
    r2: "resolve_dt ?tm2 (DtScalar 1) = Some dts2"
    and d2: "\<forall>d. DtScalar 1 = DtScalar d \<longrightarrow> dts2 = replicate (length ?tm2) d"
    and f2: "shifted_frame ?tm2 dts2 [0.3] [0.7] = Inr (tbins2, rows2)"
    and t2: "length tbins2 = length ?tm2 + 1"
      "\<forall>i < length ?tm2. tbins2 ! i = ?tm2 ! i - dts2 ! i / 2 - [0.3] ! 0"
      "tbins2 ! length ?tm2 = ?tm2 ! (length ?tm2 - 1) + dts2 ! (length ?tm2 - 1) / 2 - [0.3] ! 0"
    and w2: "length rows2 = length [0.3::real]"
      "\<forall>j < length [0.3::real]. ev_fl (rows2 ! j) = [0.3] ! j - [0.3] ! 0 \<and>
        pr_fl (rows2 ! j) = [0.7] ! j \<and>
        livetime_starts (rows2 ! j) = [0.3] ! j - [0.3] ! 0 - [0.7] ! j"
    by blast
  from d2 have dd: "dts2 = [1, 1]" by (simp add: numeral_nat)
  have tb2: "tbins2 ! 0 = 0 - 0.3" "tbins2 ! 1 = 1 - 0.3" "tbins2 ! 2 = 2 - 0.3"
    using t2(2,3) unfolding dd by (simp_all add: numeral_nat)
  have rw2: "ev_fl (rows2 ! 0) = 0" "pr_fl (rows2 ! 0) = 0.7" "livetime_starts (rows2 ! 0) = - 0.7"
    using w2(2) by simp_all
  from r2 f2 t2(1) tb2 w2(1) rw2 have 3: "\<exists>tbins rows.
     resolve_dt [0.5, 1.5] (DtScalar 1) = Some [1, 1] \<and>
     shifted_frame [0.5, 1.5] [1, 1] [0.3] [0.7] = Inr (tbins, rows) \<and>
     length tbins = 3 \<and> tbins ! 0 = 0 - 0.3 \<and> tbins ! 1 = 1 - 0.3 \<and> tbins ! 2 = 2 - 0.3 \<and>
     length rows = 1 \<and> ev_fl (rows ! 0) = 0 \<and> pr_fl (rows ! 0) = 0.7 \<and>
     livetime_starts (rows ! 0) = - 0.7"
    unfolding dd by auto
  from 1 2 3 show ?thesis by blast
qed

subsection \<open>Filter and clamping\<close>

lemma normalize_rows_append:
  "normalize_rows tbins (a @ b) = normalize_rows tbins a @ normalize_rows tbins b"
  by (simp add: normalize_rows_def)

lemma shift_rows_append:
  "length es1 = length ps1 \<Longrightarrow>
     shift_rows e0 (es1 @ es) (ps1 @ ps) = shift_rows e0 es1 ps1 @ shift_rows e0 es ps"
  by (simp add: shift_rows_def)

lemma shift_rows_Cons:
  "shift_rows e0 (e # es) (p # ps) =
     \<lparr>ev_fl = e - e0, pr_fl = p, livetime_starts = e - e0 - p\<rparr> # shift_rows e0 es ps"
  by (simp add: shift_rows_def)

lemma normalize_rows_Cons:
  "normalize_rows tbins (r # rs) =
     (if in_range tbins r then [clamp_end tbins (clamp_start tbins r)] else []) @
     normalize_rows tbins rs"
  by (simp add: normalize_rows_def)

lemma run_on_rows:
  assumes "length events = length priors" "events \<noteq> []" "resolve_dt tms dt = Some dts"
  shows "get_livetime_per_bin tms events priors dt gti =
     (case make_tbins tms dts (hd events) of
        Inl e \<Rightarrow> Inl e
      | Inr tbins \<Rightarrow>
          bin_rows tms dts tbins (normalize_rows tbins (shift_rows (hd events) events priors)))"
  using assms by (simp add: get_livetime_per_bin_stages)

lemma eps_pos: "0 < eps" by (simp add: eps_def)

text \<open>One row after filter and clamping, when the event lies after the first edge.\<close>

lemma clamp_start_row:
  assumes "e - p < fe" "fe < e" "fe + eps < le" "hd tbins = fe - e0" "last tbins = le - e0"
  shows "normalize_rows tbins [\<lparr>ev_fl = e - e0, pr_fl = p, livetime_starts = e - e0 - p\<rparr>] =
         normalize_rows tbins
           [\<lparr>ev_fl = e - e0, pr_fl = e - (fe + eps), livetime_starts = e - e0 - (e - (fe + eps))\<rparr>]"
  using assms eps_pos
  by (simp add: normalize_rows_def in_range_def clamp_start_def clamp_end_def)

lemma clamp_end_row:
  assumes "e - p < le" "le < e" "fe + eps < le" "hd tbins = fe - e0" "last tbins = le - e0"
  shows "normalize_rows tbins [\<lparr>ev_fl = e - e0, pr_fl = p, livetime_starts = e - e0 - p\<rparr>] =
         normalize_rows tbins
           [\<lparr>ev_fl = (le - eps) - e0, pr_fl = (le - eps) - (e - p),
             livetime_starts = (le - eps) - e0 - ((le - eps) - (e - p))\<rparr>]"
  using assms eps_pos
  by (simp add: normalize_rows_def in_range_def clamp_start_def clamp_end_def)

lemma discard_row:
  assumes "e \<le> fe \<or> le \<le> e - p" "hd tbins = fe - e0" "last tbins = le - e0"
  shows "normalize_rows tbins [\<lparr>ev_fl = e - e0, pr_fl = p, livetime_starts = e - e0 - p\<rparr>] = []"
  using assms by (auto simp: normalize_rows_def in_range_def)

lemma rows_split:
  assumes "length es1 = length ps1"
  shows "normalize_rows tbins (shift_rows e0 (es1 @ e # es2) (ps1 @ p # ps2)) =
     normalize_rows tbins (shift_rows e0 es1 ps1) @
     normalize_rows tbins [\<lparr>ev_fl = e - e0, pr_fl = p, livetime_starts = e - e0 - p\<rparr>] @
     normalize_rows tbins (shift_rows e0 es2 ps2)"
proof -
  have "shift_rows e0 (es1 @ e # es2) (ps1 @ p # ps2) =
      shift_rows e0 es1 ps1 @
      [\<lparr>ev_fl = e - e0, pr_fl = p, livetime_starts = e - e0 - p\<rparr>] @ shift_rows e0 es2 ps2"
    using assms by (simp add: shift_rows_append shift_rows_Cons)
  then show ?thesis by (simp only: normalize_rows_append)
qed

subsection \<open>The origin of the time frame\<close>

lemma move_simps [simp]:
  "ev_fl (move c r) = ev_fl r + c" "livetime_starts (move c r) = livetime_starts r + c"
  "pr_fl (move c r) = pr_fl r"
  by (simp_all add: move_def)

lemma searchsorted_right_move:
  "searchsorted_right (map (\<lambda>x. x + c) ts) (v + c) = searchsorted_right ts v"
  by (simp add: searchsorted_right_def filter_map comp_def)

lemma bins_move:
  "lts_bin (map (\<lambda>x. x + c) ts) (move c r) = lts_bin ts r"
  "ev_bin (map (\<lambda>x. x + c) ts) (move c r) = ev_bin ts r"
  by (simp_all add: lts_bin_def ev_bin_def searchsorted_right_move)

lemma normalize_rows_move:
  assumes "tbins \<noteq> []"
  shows "normalize_rows (map (\<lambda>x. x + c) tbins) (map (move c) rows) =
         map (move c) (normalize_rows tbins rows)"
proof -
  have hl: "hd (map (\<lambda>x. x + c) tbins) = hd tbins + c" "last (map (\<lambda>x. x + c) tbins) = last tbins + c"
    using assms by (simp_all add: hd_map last_map)
  have ir: "in_range (map (\<lambda>x. x + c) tbins) (move c r) = in_range tbins r" for r
    by (simp add: in_range_def hl)
  have cs: "clamp_start (map (\<lambda>x. x + c) tbins) (move c r) = move c (clamp_start tbins r)" for r
    by (simp add: clamp_start_def hl move_def)
  have ce: "clamp_end (map (\<lambda>x. x + c) tbins) (move c r) = move c (clamp_end tbins r)" for r
    by (simp add: clamp_end_def hl move_def)
  show ?thesis
    by (simp add: normalize_rows_def filter_map comp_def ir cs ce)
qed

lemma in_bin_move:
  "Suc i < length edges \<Longrightarrow> in_bin (map (\<lambda>x. x + c) edges) i (x + c) = in_bin edges i x"
  by (simp add: in_bin_def)

lemma sorted_move: "sorted (map (\<lambda>x. x + c) xs) = sorted (xs :: real list)"
  by (induction xs) auto

lemma first_pass_move:
  "first_pass (map (\<lambda>x. x + c) tbins) (map (move c) rows) = first_pass tbins rows"
proof -
  let ?P = "\<lambda>r. ev_bin (butlast tbins) r = lts_bin (butlast tbins) r"
  have same: "filter (\<lambda>r. ev_bin (butlast (map (\<lambda>x. x + c) tbins)) r =
                          lts_bin (butlast (map (\<lambda>x. x + c) tbins)) r) (map (move c) rows) =
      map (move c) (filter ?P rows)"
    by (simp add: filter_map comp_def map_butlast [symmetric] bins_move)
  have "sum_list (map snd (filter (\<lambda>(x, y). in_bin (map (\<lambda>x. x + c) tbins) i x)
            (zip (map ev_fl (map (move c) rs)) (map pr_fl (map (move c) rs))))) =
        sum_list (map snd (filter (\<lambda>(x, y). in_bin tbins i x) (zip (map ev_fl rs) (map pr_fl rs))))"
    if "Suc i < length tbins" for i rs
    by (induction rs) (simp_all add: in_bin_move [OF that])
  then have "map (\<lambda>i. sum_list (map snd (filter (\<lambda>(x, y). in_bin (map (\<lambda>x. x + c) tbins) i x)
            (zip (map ev_fl (map (move c) rs)) (map pr_fl (map (move c) rs))))))
         [0..<length tbins - 1] =
        map (\<lambda>i. sum_list (map snd (filter (\<lambda>(x, y). in_bin tbins i x)
            (zip (map ev_fl rs) (map pr_fl rs))))) [0..<length tbins - 1]" for rs
    by (intro map_cong refl) simp
  then show ?thesis
    unfolding first_pass_def Let_def same np_histogram_def sorted_move by simp
qed

lemma max_bin_diff_move:
  "max_bin_diff (map (\<lambda>x. x + c) ts) (map (move c) rows) = max_bin_diff ts rows"
  by (simp add: max_bin_diff_def comp_def bins_move)

lemma py_index_map: "py_index (map f xs) i = map_sum id f (py_index xs i)"
  by (simp add: py_index_def norm_idx_def)

lemma take_idx_map: "take_idx (map f xs) idxs = map_sum id (map f) (take_idx xs idxs)"
  by (induction idxs) (auto simp: py_index_map split: sum.splits)

lemma map2_minus_move:
  "map2 (-) (map (\<lambda>x. x + c) xs) (map (\<lambda>x. x + c) ys) = map2 (-) xs (ys :: real list)"
  by (induction xs arbitrary: ys) (auto simp: zip_Cons1 split: list.splits)

lemma case_map_sum:
  "(case map_sum id f x of Inl e \<Rightarrow> Inl e | Inr v \<Rightarrow> g v) =
   (case x of Inl e \<Rightarrow> Inl e | Inr v \<Rightarrow> g (f v))"
  by (cases x) simp_all

lemma span_pass_move:
  "span_pass dts (map (\<lambda>x. x + c) ts) (map (move c) rows) k la = span_pass dts ts rows k la"
proof -
  let ?P = "\<lambda>r. ev_bin ts r = lts_bin ts r + int k"
  let ?good = "filter ?P rows"
  have good: "filter (\<lambda>r. ev_bin (map (\<lambda>x. x + c) ts) r = lts_bin (map (\<lambda>x. x + c) ts) r + int k)
        (map (move c) rows) = map (move c) ?good"
    by (simp add: filter_map comp_def bins_move)
  have m1: "map (ev_bin (map (\<lambda>x. x + c) ts)) (map (move c) ?good) = map (ev_bin ts) ?good"
    "map (lts_bin (map (\<lambda>x. x + c) ts)) (map (move c) ?good) = map (lts_bin ts) ?good"
    by (simp_all add: comp_def bins_move)
  have m2: "map ev_fl (map (move c) ?good) = map (\<lambda>x. x + c) (map ev_fl ?good)"
    "map livetime_starts (map (move c) ?good) = map (\<lambda>x. x + c) (map livetime_starts ?good)"
    by (simp_all add: comp_def)
  have s1: "map (\<lambda>x. searchsorted_right (map (\<lambda>x. x + c) ts) x - 1) (map (\<lambda>x. x + c) xs) =
      map (\<lambda>x. searchsorted_right ts x - 1) xs" for xs
    by (simp add: comp_def searchsorted_right_move)
  have s2: "map (searchsorted_right (map (\<lambda>x. x + c) ts)) (map (\<lambda>x. x + c) xs) =
      map (searchsorted_right ts) xs" for xs
    by (simp add: comp_def searchsorted_right_move)
  show ?thesis
    unfolding span_pass_def Let_def good m1 m2 s1 s2 take_idx_map case_map_sum map2_minus_move
    by (rule refl)
qed

lemma span_loop_move:
  "span_loop dts (map (\<lambda>x. x + c) ts) (map (move c) rows) k la = span_loop dts ts rows k la"
  by (induction k arbitrary: la) (simp_all add: span_pass_move split: sum.splits)

lemma bin_rows_move:
  "bin_rows tms dts (map (\<lambda>x. x + c) tbins) (map (move c) rows) = bin_rows tms dts tbins rows"
  by (simp add: bin_rows_def first_pass_move max_bin_diff_move map_butlast [symmetric] span_loop_move
      split: sum.splits)

lemma make_tbins_move:
  "make_tbins tms dts (e0 - c) = map_sum id (map (\<lambda>x. x + c)) (make_tbins tms dts e0)"
  by (simp add: make_tbins_def split: sum.splits)

lemma shift_rows_move:
  "shift_rows (e0 - c) events priors = map (move c) (shift_rows e0 events priors)"
  unfolding shift_rows_def map_map
  by (rule map_cong) (auto simp: move_def)

text \<open>The result does not depend on the origin of the time frame: any \<open>e0\<close> may take
  the place of \<^verbatim>\<open>events[0]\<close>.\<close>

lemma frame_independent:
  assumes "length events = length priors" "events \<noteq> []" "resolve_dt tms dt = Some dts"
  shows "get_livetime_per_bin tms events priors dt gti =
     (case make_tbins tms dts e0 of
        Inl e \<Rightarrow> Inl e
      | Inr tbins \<Rightarrow> bin_rows tms dts tbins (normalize_rows tbins (shift_rows e0 events priors)))"
proof -
  define c where "c = e0 - hd events"
  have h: "hd events = e0 - c" by (simp add: c_def)
  show ?thesis
  proof (cases "make_tbins tms dts e0")
    case (Inl e)
    then show ?thesis
      using assms by (simp add: get_livetime_per_bin_stages h make_tbins_move)
  next
    case (Inr tbins)
    then have ne: "tbins \<noteq> []" by (rule make_tbins_ends(3))
    show ?thesis
      using assms Inr
      by (simp add: get_livetime_per_bin_stages h make_tbins_move shift_rows_move
          normalize_rows_move [OF ne] bin_rows_move)
  qed
qed

subsection \<open>Clamped and discarded events\<close>

text \<open>What lines 72 to 89 do to one event among others, as an equation between two
  calls: \<open>fe\<close> is the first edge \<^verbatim>\<open>times[0] - dt[0]/2\<close> and \<open>le\<close> the last edge
  \<^verbatim>\<open>times[-1] + dt[-1]/2\<close>.\<close>

lemma clamp_start_call:
  assumes dts: "resolve_dt tms dt = Some dts"
    and l1: "length es1 = length ps1" and l2: "length es2 = length ps2"
    and fe: "fe = hd tms - hd dts / 2" and le: "le = last tms + last dts / 2"
    and a: "e - p < fe" "fe < e" "fe + eps < le"
  shows "get_livetime_per_bin tms (es1 @ e # es2) (ps1 @ p # ps2) dt gti =
       get_livetime_per_bin tms (es1 @ e # es2) (ps1 @ (e - (fe + eps)) # ps2) dt gti"
proof -
  have len: "length (es1 @ x # es2) = length (ps1 @ y # ps2)" for x y :: real
    using l1 l2 by simp
  note ends = make_tbins_ends(1,2) [where tms = tms and dts = dts and ?e0.0 = 0, folded fe le]
  note run = frame_independent [OF len _ dts, where ?e0.0 = 0]
  have "normalize_rows tbins (shift_rows 0 (es1 @ e # es2) (ps1 @ p # ps2)) =
        normalize_rows tbins (shift_rows 0 (es1 @ e # es2) (ps1 @ (e - (fe + eps)) # ps2))"
    if "make_tbins tms dts 0 = Inr tbins" for tbins
    using a clamp_start_row [of e p fe le tbins 0] ends [OF that]
    by (simp only: rows_split [OF l1])
  then show ?thesis by (simp add: run split: sum.splits)
qed

lemma clamp_end_call:
  assumes dts: "resolve_dt tms dt = Some dts"
    and l1: "length es1 = length ps1" and l2: "length es2 = length ps2"
    and fe: "fe = hd tms - hd dts / 2" and le: "le = last tms + last dts / 2"
    and a: "e - p < le" "le < e" "fe + eps < le"
  shows "get_livetime_per_bin tms (es1 @ e # es2) (ps1 @ p # ps2) dt gti =
       get_livetime_per_bin tms (es1 @ (le - eps) # es2) (ps1 @ ((le - eps) - (e - p)) # ps2) dt gti"
proof -
  have len: "length (es1 @ x # es2) = length (ps1 @ y # ps2)" for x y :: real
    using l1 l2 by simp
  note ends = make_tbins_ends(1,2) [where tms = tms and dts = dts and ?e0.0 = 0, folded fe le]
  note run = frame_independent [OF len _ dts, where ?e0.0 = 0]
  have "normalize_rows tbins (shift_rows 0 (es1 @ e # es2) (ps1 @ p # ps2)) =
        normalize_rows tbins (shift_rows 0 (es1 @ (le - eps) # es2)
           (ps1 @ ((le - eps) - (e - p)) # ps2))"
    if "make_tbins tms dts 0 = Inr tbins" for tbins
    using a clamp_end_row [of e p le fe tbins 0] ends [OF that]
    by (simp only: rows_split [OF l1])
  then show ?thesis by (simp add: run split: sum.splits)
qed

lemma discard_call:
  assumes dts: "resolve_dt tms dt = Some dts"
    and l1: "length es1 = length ps1" and l2: "length es2 = length ps2"
    and fe: "fe = hd tms - hd dts / 2" and le: "le = last tms + last dts / 2"
    and a: "e \<le> fe \<or> le \<le> e - p" and ne: "es1 @ es2 \<noteq> []"
  shows "get_livetime_per_bin tms (es1 @ e # es2) (ps1 @ p # ps2) dt gti =
       get_livetime_per_bin tms (es1 @ es2) (ps1 @ ps2) dt gti"
proof -
  have len: "length (es1 @ x # es2) = length (ps1 @ y # ps2)" for x y :: real
    using l1 l2 by simp
  have len': "length (es1 @ es2) = length (ps1 @ ps2)" using l1 l2 by simp
  note ends = make_tbins_ends(1,2) [where tms = tms and dts = dts and ?e0.0 = 0, folded fe le]
  note run = frame_independent [OF len _ dts, where ?e0.0 = 0]
  have "normalize_rows tbins (shift_rows 0 (es1 @ e # es2) (ps1 @ p # ps2)) =
        normalize_rows tbins (shift_rows 0 (es1 @ es2) (ps1 @ ps2))"
    if "make_tbins tms dts 0 = Inr tbins" for tbins
  proof -
    have "normalize_rows tbins
        [\<lparr>ev_fl = e - 0, pr_fl = p, livetime_starts = e - 0 - p\<rparr>] = []"
      using a discard_row [of e fe le p tbins 0] ends [OF that] by blast
    then have "normalize_rows tbins (shift_rows 0 (es1 @ e # es2) (ps1 @ p # ps2)) =
        normalize_rows tbins (shift_rows 0 es1 ps1) @
        normalize_rows tbins (shift_rows 0 es2 ps2)"
      by (simp only: rows_split [OF l1] append_Nil)
    then show ?thesis
      by (simp only: shift_rows_append [OF l1] normalize_rows_append)
  qed
  then show ?thesis
    by (simp add: run frame_independent [OF len' ne dts, where ?e0.0 = 0] split: sum.splits)
qed

subsection \<open>Searching and binning on ascending edges\<close>

lemma sorted_filter_le_takeWhile:
  "sorted xs \<Longrightarrow> filter (\<lambda>x. x \<le> v) xs = takeWhile (\<lambda>x. x \<le> (v::real)) xs"
proof (induction xs)
  case Nil
  then show ?case by simp
next
  case (Cons x xs)
  show ?case
  proof (cases "x \<le> v")
    case True
    with Cons show ?thesis by simp
  next
    case False
    with Cons.prems have "\<forall>y \<in> set xs. \<not> y \<le> v" by auto
    then have "filter (\<lambda>x. x \<le> v) xs = []" by (simp add: filter_empty_conv)
    with False show ?thesis by simp
  qed
qed

lemma searchsorted_right_below:
  assumes "sorted ts" "int i < searchsorted_right ts v"
  shows "ts ! i \<le> v"
proof -
  let ?tw = "takeWhile (\<lambda>x. x \<le> v) ts"
  from assms have i: "i < length ?tw"
    by (simp add: searchsorted_right_def sorted_filter_le_takeWhile)
  then have "?tw ! i \<in> set ?tw" by simp
  then have "?tw ! i \<le> v" by (auto dest: set_takeWhileD)
  with i show ?thesis by (simp add: takeWhile_nth)
qed

lemma searchsorted_right_above:
  assumes "sorted ts" "searchsorted_right ts v \<le> int i" "i < length ts"
  shows "v < ts ! i"
proof -
  let ?k = "length (takeWhile (\<lambda>x. x \<le> v) ts)"
  from assms have k: "?k \<le> i"
    by (simp add: searchsorted_right_def sorted_filter_le_takeWhile)
  with assms(3) have "?k < length ts" by simp
  then have "\<not> ts ! ?k \<le> v" by (rule nth_length_takeWhile)
  moreover have "ts ! ?k \<le> ts ! i"
    using assms(1,3) k by (simp add: sorted_nth_mono)
  ultimately show ?thesis by simp
qed

lemma searchsorted_right_range:
  "0 \<le> searchsorted_right ts v" "searchsorted_right ts v \<le> int (length ts)"
  by (simp_all add: searchsorted_right_def)

lemma searchsorted_right_eq:
  assumes "sorted ts" "b < length ts" "ts ! b \<le> v" "Suc b < length ts \<longrightarrow> v < ts ! Suc b"
  shows "searchsorted_right ts v = int (Suc b)"
proof -
  let ?k = "searchsorted_right ts v"
  have "\<not> ?k \<le> int b"
    using searchsorted_right_above [OF assms(1) _ assms(2)] assms(3) by fastforce
  moreover have "\<not> int (Suc b) < ?k"
  proof
    assume a: "int (Suc b) < ?k"
    with searchsorted_right_range(2) [of ts v] have "Suc b < length ts" by simp
    moreover from a have "ts ! Suc b \<le> v" by (rule searchsorted_right_below [OF assms(1)])
    ultimately show False using assms(4) by simp
  qed
  ultimately show ?thesis by simp
qed

lemma searchsorted_right_mono:
  "v \<le> w \<Longrightarrow> searchsorted_right ts v \<le> searchsorted_right ts w"
proof (induction ts)
  case Nil
  then show ?case by (simp add: searchsorted_right_def)
next
  case (Cons x ts)
  then show ?case by (auto simp: searchsorted_right_def)
qed

lemma searchsorted_right_pos:
  "ts \<noteq> [] \<Longrightarrow> hd ts \<le> v \<Longrightarrow> 1 \<le> searchsorted_right ts v"
  by (cases ts) (simp_all add: searchsorted_right_def)

text \<open>The bin of a value at or after the first edge.\<close>

lemma bin_of_value:
  assumes "sorted ts" "ts \<noteq> []" "hd ts \<le> v"
  obtains b where "b < length ts" "searchsorted_right ts v - 1 = int b" "ts ! b \<le> v"
    "\<And>i. b < i \<Longrightarrow> i < length ts \<Longrightarrow> v < ts ! i"
proof -
  let ?k = "searchsorted_right ts v"
  from searchsorted_right_pos [OF assms(2,3)] have k1: "1 \<le> ?k" .
  define b where "b = nat (?k - 1)"
  have kb: "?k - 1 = int b" using k1 by (simp add: b_def)
  have "b < length ts" using searchsorted_right_range(2) [of ts v] kb by simp
  moreover have "ts ! b \<le> v"
    using searchsorted_right_below [OF assms(1), of b v] kb by simp
  moreover have "v < ts ! i" if "b < i" "i < length ts" for i
    using searchsorted_right_above [OF assms(1) _ that(2), of v] that(1) kb by simp
  ultimately show thesis using kb that by blast
qed

lemma in_bin_unique:
  assumes "sorted tbins" "length tbins = Suc N" "b < N" "tbins ! b \<le> x"
    "\<And>i. b < i \<Longrightarrow> i < N \<Longrightarrow> x < tbins ! i" "x \<le> tbins ! N" "i < N"
  shows "in_bin tbins i x \<longleftrightarrow> i = b"
proof
  assume ib: "in_bin tbins i x"
  show "i = b"
  proof (rule ccontr)
    assume "i \<noteq> b"
    then consider "b < i" | "i < b" by linarith
    then show False
    proof cases
      case 1
      with assms(5) [of i] assms(7) ib show False by (auto simp: in_bin_def)
    next
      case 2
      then have "tbins ! Suc i \<le> tbins ! b"
        using assms(1,2,3) by (intro sorted_nth_mono) auto
      with assms(4) have "\<not> x < tbins ! Suc i" by simp
      with ib have "Suc (Suc i) = length tbins" by (auto simp: in_bin_def)
      with assms(2,3) 2 show False by simp
    qed
  qed
next
  assume "i = b"
  show "in_bin tbins i x"
  proof (cases "Suc b < N")
    case True
    with assms(5) [of "Suc b"] assms(4) \<open>i = b\<close> show ?thesis by (simp add: in_bin_def)
  next
    case False
    with assms(3) have "Suc b = N" by simp
    with assms(2,4,6) \<open>i = b\<close> show ?thesis by (auto simp: in_bin_def)
  qed
qed

lemma histogram_sum:
  "sum_list (map snd (filter (\<lambda>(x, y). P x) (zip (map f rs) (map g rs)))) =
   sum_list (map (\<lambda>r. if P (f r) then g r else (0::real)) rs)"
  by (induction rs) auto

lemma np_histogram_rows:
  "sorted tbins \<Longrightarrow>
     np_histogram (map ev_fl rs) tbins (map pr_fl rs) =
       Inr (map (\<lambda>i. sum_list (map (\<lambda>r. if in_bin tbins i (ev_fl r) then pr_fl r else 0) rs))
              [0..<length tbins - 1])"
  by (simp add: np_histogram_def histogram_sum)

lemma iadd_array_zeros: "length ys = n \<Longrightarrow> iadd_array (replicate n 0) ys = Inr ys"
  by (auto simp: iadd_array_def list_eq_iff_nth_eq)

lemma take_idx_single:
  "i < length xs \<Longrightarrow> take_idx xs [int i] = Inr [xs ! i]"
  by (simp add: py_index_def norm_idx_def)

lemma iadd_at_single:
  "i < length la \<Longrightarrow> iadd_at la [int i] [v] = Inr (la[i := la ! i + v])"
  by (simp add: iadd_at_def py_index_def norm_idx_def)

lemma iadd_at_nil: "iadd_at la [] [] = Inr la"
  by (simp add: iadd_at_def)

lemma complete_bins_nil: "complete_bins dts [] i n la = Inr la"
  by (induction n arbitrary: i la) (simp_all add: iadd_at_nil)

lemma complete_bins_single:
  "a + i + n \<le> length la \<Longrightarrow> a + i + n \<le> length dts \<Longrightarrow>
     complete_bins dts [int a] (int i) n la =
       Inr (map (\<lambda>j. if a + i \<le> j \<and> j < a + i + n then la ! j + dts ! j else la ! j)
              [0..<length la])"
proof (induction n arbitrary: i la)
  case 0
  have "map (\<lambda>j. if a + i \<le> j \<and> j < a + i + 0 then la ! j + dts ! j else la ! j)
          [0..<length la] = la"
    by (rule nth_equalityI) auto
  then show ?case by simp
next
  case (Suc n)
  have idx: "int a + int i = int (a + i)" by simp
  have t: "take_idx dts [int a + int i] = Inr [dts ! (a + i)]"
    unfolding idx using Suc.prems by (intro take_idx_single) simp
  have u: "iadd_at la [int a + int i] [dts ! (a + i)] =
      Inr (la[a + i := la ! (a + i) + dts ! (a + i)])"
    unfolding idx using Suc.prems by (intro iadd_at_single) simp
  let ?la1 = "la[a + i := la ! (a + i) + dts ! (a + i)]"
  have "complete_bins dts [int a] (int (Suc i)) n ?la1 =
      Inr (map (\<lambda>j. if a + Suc i \<le> j \<and> j < a + Suc i + n then ?la1 ! j + dts ! j else ?la1 ! j)
              [0..<length ?la1])"
    using Suc.prems by (intro Suc.IH) simp_all
  moreover have "complete_bins dts [int a] (int i) (Suc n) la =
      complete_bins dts [int a] (int (Suc i)) n ?la1"
  proof -
    have m: "map (\<lambda>b. b + int i) [int a] = [int a + int i]" by simp
    have s: "int i + 1 = int (Suc i)" by simp
    show ?thesis by (simp only: complete_bins.simps m t u sum.case s)
  qed
  ultimately have "complete_bins dts [int a] (int i) (Suc n) la =
      Inr (map (\<lambda>j. if a + Suc i \<le> j \<and> j < a + Suc i + n then ?la1 ! j + dts ! j else ?la1 ! j)
              [0..<length ?la1])"
    by (simp only:)
  moreover have "map (\<lambda>j. if a + Suc i \<le> j \<and> j < a + Suc i + n then ?la1 ! j + dts ! j else ?la1 ! j)
              [0..<length ?la1] =
      map (\<lambda>j. if a + i \<le> j \<and> j < a + i + Suc n then la ! j + dts ! j else la ! j)
              [0..<length la]"
    using Suc.prems by (auto simp: nth_list_update)
  ultimately show ?case by simp
qed

lemma span_pass_none:
  assumes "\<forall>r \<in> set rows. ev_bin ts r \<noteq> lts_bin ts r + int k"
  shows "span_pass dts ts rows k la = Inr la"
proof -
  from assms have "filter (\<lambda>r. ev_bin ts r = lts_bin ts r + int k) rows = []"
    by (simp add: filter_empty_conv)
  then show ?thesis
    by (simp add: span_pass_def iadd_at_nil complete_bins_nil)
qed

lemma span_loop_none:
  assumes "\<forall>r \<in> set rows. \<forall>j. 1 \<le> j \<and> j \<le> k \<longrightarrow> ev_bin ts r \<noteq> lts_bin ts r + int j"
  shows "span_loop dts ts rows k la = Inr la"
  using assms
proof (induction k)
  case 0
  then show ?case by simp
next
  case (Suc k)
  have "ev_bin ts r \<noteq> lts_bin ts r + int (Suc k)" if "r \<in> set rows" for r
    using Suc.prems that by (metis le_refl le_add1 plus_1_eq_Suc)
  then have "span_pass dts ts rows (Suc k) la = Inr la"
    by (intro span_pass_none) blast
  moreover from Suc have "span_loop dts ts rows k la = Inr la" by auto
  ultimately show ?case by simp
qed

text \<open>One pass over a single event that spans \<open>k\<close> edges.\<close>

lemma span_pass_single:
  assumes a: "lts_bin ts r = int a" and b: "ev_bin ts r = int (a + k)" and k: "0 < k"
    and n: "a + k < length ts" "length la = length ts" "length dts = length ts"
    and lo: "ts ! (a + k) \<le> ev_fl r" and hi: "livetime_starts r \<le> ts ! Suc a"
  shows "span_pass dts ts [r] k la =
     Inr (map (\<lambda>j. if Suc a \<le> j \<and> j < a + k then
                     (la[a + k := la ! (a + k) + (ev_fl r - ts ! (a + k)),
                         a := la ! a + (ts ! Suc a - livetime_starts r)]) ! j + dts ! j
                   else (la[a + k := la ! (a + k) + (ev_fl r - ts ! (a + k)),
                         a := la ! a + (ts ! Suc a - livetime_starts r)]) ! j)
             [0..<length la])"
proof -
  let ?la1 = "la[a + k := la ! (a + k) + (ev_fl r - ts ! (a + k))]"
  let ?la2 = "?la1[a := ?la1 ! a + (ts ! Suc a - livetime_starts r)]"
  have good: "filter (\<lambda>r. ev_bin ts r = lts_bin ts r + int k) [r] = [r]"
    using a b by simp
  have se: "searchsorted_right ts (ev_fl r) - 1 = int (a + k)"
    using b by (simp add: ev_bin_def)
  have sl: "searchsorted_right ts (livetime_starts r) = int (Suc a)"
    using a by (simp add: lts_bin_def)
  have t1: "take_idx ts [int (a + k)] = Inr [ts ! (a + k)]"
    using n by (intro take_idx_single) simp
  have u1: "iadd_at la [int (a + k)] [ev_fl r - ts ! (a + k)] = Inr ?la1"
    using n by (intro iadd_at_single) simp
  have t2: "take_idx ts [int (Suc a)] = Inr [ts ! Suc a]"
    using n k by (intro take_idx_single) simp
  have u2: "iadd_at ?la1 [int a] [ts ! Suc a - livetime_starts r] = Inr ?la2"
    using n by (intro iadd_at_single) simp
  have la1a: "?la1 ! a = la ! a" using k by simp
  have c: "complete_bins dts [int a] (int 1) (k - 1) ?la2 =
      Inr (map (\<lambda>j. if a + 1 \<le> j \<and> j < a + 1 + (k - 1) then ?la2 ! j + dts ! j else ?la2 ! j)
              [0..<length ?la2])"
    using n k by (intro complete_bins_single) simp_all
  have "span_pass dts ts [r] k la =
      Inr (map (\<lambda>j. if a + 1 \<le> j \<and> j < a + 1 + (k - 1) then ?la2 ! j + dts ! j else ?la2 ! j)
              [0..<length ?la2])"
    unfolding span_pass_def Let_def good
    using se sl t1 u1 t2 u2 c lo hi a b by simp
  moreover have "a + 1 + (k - 1) = a + k" using k by simp
  ultimately show ?thesis by (simp add: la1a)
qed

lemma butlast_edges:
  assumes "length tbins = Suc N"
  shows "length (butlast tbins) = N" and "\<And>i. i < N \<Longrightarrow> butlast tbins ! i = tbins ! i"
    and "sorted tbins \<Longrightarrow> sorted (butlast tbins)"
    and "0 < N \<Longrightarrow> hd (butlast tbins) = tbins ! 0"
    and "0 < N \<Longrightarrow> butlast tbins \<noteq> []"
proof -
  show l: "length (butlast tbins) = N" using assms by simp
  show n: "butlast tbins ! i = tbins ! i" if "i < N" for i
    using that l by (simp add: nth_butlast)
  show "sorted (butlast tbins)" if "sorted tbins"
    using that by (simp add: sorted_butlast)
  show e: "butlast tbins \<noteq> []" if "0 < N"
  proof
    assume "butlast tbins = []"
    then have "length (butlast tbins) = 0" by simp
    with l that show False by simp
  qed
  show "hd (butlast tbins) = tbins ! 0" if "0 < N"
    using that e [OF that] n [of 0] by (simp add: hd_conv_nth)
qed

lemma sum_list_spike:
  "b < N \<Longrightarrow> sum_list (map (\<lambda>j. if j = b then (v::real) else 0) [0..<N]) = v"
  by (simp add: interv_sum_list_conv_sum_set_nat)

lemma sum_list_span:
  fixes t :: "nat \<Rightarrow> real"
  assumes "a < b" "b < N"
  shows "sum_list (map (\<lambda>j. if Suc a \<le> j \<and> j < b then
                            (if j = a then u else if j = b then v else 0) + (t (Suc j) - t j)
                          else (if j = a then u else if j = b then v else 0)) [0..<N])
         = u + v + (t b - t (Suc a))"
proof -
  let ?g = "\<lambda>j. (if j = a then u else 0) + (if j = b then v else 0) +
               (if j \<in> {Suc a..<b} then t (Suc j) - t j else 0)"
  have "sum_list (map (\<lambda>j. if Suc a \<le> j \<and> j < b then
                            (if j = a then u else if j = b then v else 0) + (t (Suc j) - t j)
                          else (if j = a then u else if j = b then v else 0)) [0..<N])
        = sum_list (map ?g [0..<N])"
    using assms by (intro arg_cong [where f = sum_list] map_cong) auto
  also have "\<dots> = (\<Sum>j<N. ?g j)"
    by (simp add: interv_sum_list_conv_sum_set_nat atLeast0LessThan)
  also have "\<dots> = (\<Sum>j<N. if j = a then u else 0) + (\<Sum>j<N. if j = b then v else 0) +
        (\<Sum>j<N. if j \<in> {Suc a..<b} then t (Suc j) - t j else 0)"
    by (simp add: sum.distrib)
  also have "(\<Sum>j<N. if j = a then u else 0) = u" using assms by simp
  also have "(\<Sum>j<N. if j = b then v else 0) = v" using assms by simp
  also have "(\<Sum>j<N. if j \<in> {Suc a..<b} then t (Suc j) - t j else 0) =
        (\<Sum>j \<in> {Suc a..<b}. t (Suc j) - t j)"
  proof -
    have "{..<N} \<inter> {Suc a..<b} = {Suc a..<b}" using assms by auto
    then show ?thesis
      using sum.inter_restrict [of "{..<N}" "\<lambda>j. t (Suc j) - t j" "{Suc a..<b}"] by simp
  qed
  also have "\<dots> = t b - t (Suc a)"
    using assms by (intro sum_Suc_diff') simp
  finally show ?thesis .
qed

lemma first_pass_rows:
  assumes "sorted tbins"
  shows "first_pass tbins rows =
     Inr (map (\<lambda>i. sum_list (map (\<lambda>r. if in_bin tbins i (ev_fl r) then pr_fl r else 0)
                 (filter (\<lambda>r. ev_bin (butlast tbins) r = lts_bin (butlast tbins) r) rows)))
            [0..<length tbins - 1])"
  using assms by (simp add: first_pass_def Let_def np_histogram_rows)

lemma max_bin_diff_single:
  "max_bin_diff ts [r] = Inr (ev_bin ts r - lts_bin ts r)"
  by (simp add: max_bin_diff_def)

lemma replicate_spike:
  "b < N \<Longrightarrow> map (\<lambda>j. if j = b then v else (0::real)) [0..<N] = (replicate N 0)[b := v]"
  by (rule nth_equalityI) (auto simp: nth_list_update)

text \<open>The binning of one event whose livetime interval lies between the first and
  the last edge of a contiguous axis.\<close>

lemma bin_rows_single:
  assumes len: "length tbins = Suc N" "0 < N" "length tms = N" "length dts = N"
    and width: "\<And>i. i < N \<Longrightarrow> dts ! i = tbins ! Suc i - tbins ! i"
    and pos: "\<And>i. i < N \<Longrightarrow> 0 < dts ! i"
    and r: "tbins ! 0 \<le> livetime_starts r" "livetime_starts r < ev_fl r" "ev_fl r \<le> tbins ! N"
      "pr_fl r = ev_fl r - livetime_starts r"
  shows "\<exists>la. bin_rows tms dts tbins [r] = Inr la \<and> length la = N \<and> sum_list la = pr_fl r \<and>
          (\<forall>i < N. tbins ! i \<le> livetime_starts r \<and> ev_fl r \<le> tbins ! Suc i \<longrightarrow>
              la = (replicate N 0)[i := pr_fl r])"
proof -
  let ?ts = "butlast tbins"
  let ?lts = "livetime_starts r" and ?ev = "ev_fl r"
  have step: "tbins ! i < tbins ! Suc i" if "i < N" for i
    using width [OF that] pos [OF that] by simp
  have sorted: "sorted tbins"
    unfolding sorted_iff_nth_Suc using step len(1) by (simp add: less_imp_le)
  note bl = butlast_edges [OF len(1)]
  have ts: "sorted ?ts" "?ts \<noteq> []" "hd ?ts = tbins ! 0" "length ?ts = N"
    using bl sorted len(2) by simp_all
  have mono: "tbins ! i \<le> tbins ! j" if "i \<le> j" "j \<le> N" for i j
    using sorted that len(1) by (intro sorted_nth_mono) simp_all
  from r(1,2) have r1': "tbins ! 0 \<le> ?ev" by simp
  obtain a where a: "a < N" "lts_bin ?ts r = int a" "tbins ! a \<le> ?lts"
    "\<And>i. a < i \<Longrightarrow> i < N \<Longrightarrow> ?lts < tbins ! i"
  proof -
    obtain a where "a < length ?ts" "searchsorted_right ?ts ?lts - 1 = int a" "?ts ! a \<le> ?lts"
      "\<And>i. a < i \<Longrightarrow> i < length ?ts \<Longrightarrow> ?lts < ?ts ! i"
      using bin_of_value [OF ts(1,2), of ?lts] ts(3) r(1) by auto
    then show thesis using that [of a] ts(4) bl(2) by (simp add: lts_bin_def)
  qed
  obtain b where b: "b < N" "ev_bin ?ts r = int b" "tbins ! b \<le> ?ev"
    "\<And>i. b < i \<Longrightarrow> i < N \<Longrightarrow> ?ev < tbins ! i"
  proof -
    obtain b where "b < length ?ts" "searchsorted_right ?ts ?ev - 1 = int b" "?ts ! b \<le> ?ev"
      "\<And>i. b < i \<Longrightarrow> i < length ?ts \<Longrightarrow> ?ev < ?ts ! i"
      using bin_of_value [OF ts(1,2), of ?ev] ts(3) r1' by auto
    then show thesis using that [of b] ts(4) bl(2) by (simp add: ev_bin_def)
  qed
  have ab: "a \<le> b"
    using searchsorted_right_mono [of ?lts ?ev ?ts] r(2) a(2) b(2)
    by (simp add: lts_bin_def ev_bin_def)
  have a_of: "a = i" if "i < N" "tbins ! i \<le> ?lts" "?ev \<le> tbins ! Suc i" for i
  proof -
    have "\<not> a < i" using a(4) [of i] that by auto
    moreover have "\<not> i < a"
    proof
      assume "i < a"
      then have "tbins ! Suc i \<le> tbins ! a" using a(1) by (intro mono) simp_all
      with a(3) that(3) r(2) show False by simp
    qed
    ultimately show ?thesis by simp
  qed
  have zeros: "map (\<lambda>i. 0::real) [0..<N] = replicate N 0"
    by (simp add: map_replicate_const)
  show ?thesis
  proof (cases "a = b")
    case True
    have same: "filter (\<lambda>r. ev_bin ?ts r = lts_bin ?ts r) [r] = [r]"
      using a(2) b(2) True by simp
    have "first_pass tbins [r] =
        Inr (map (\<lambda>i. if in_bin tbins i ?ev then pr_fl r else 0) [0..<N])"
      unfolding first_pass_rows [OF sorted] same using len(1) by simp
    also have "map (\<lambda>i. if in_bin tbins i ?ev then pr_fl r else 0) [0..<N] =
        map (\<lambda>i. if i = b then pr_fl r else 0) [0..<N]"
      using in_bin_unique [OF sorted len(1) b(1) b(3) b(4) r(3)]
      by (intro map_cong) auto
    also have "\<dots> = (replicate N 0)[b := pr_fl r]"
      by (rule replicate_spike [OF b(1)])
    finally have fp: "first_pass tbins [r] = Inr ((replicate N 0)[b := pr_fl r])" .
    have ia: "iadd_array (replicate (length tms) 0) ((replicate N 0)[b := pr_fl r]) =
        Inr ((replicate N 0)[b := pr_fl r])"
      using len(3) by (intro iadd_array_zeros) simp
    have mx: "max_bin_diff ?ts [r] = Inr 0"
      using a(2) b(2) True by (simp add: max_bin_diff_single)
    have run: "bin_rows tms dts tbins [r] = Inr ((replicate N 0)[b := pr_fl r])"
      by (simp add: bin_rows_def fp ia mx)
    have "sum_list ((replicate N 0)[b := pr_fl r]) = pr_fl r"
      unfolding replicate_spike [OF b(1), symmetric] by (rule sum_list_spike [OF b(1)])
    moreover have "(replicate N 0)[b := pr_fl r] = (replicate N 0)[i := pr_fl r]"
      if "i < N" "tbins ! i \<le> ?lts \<and> ?ev \<le> tbins ! Suc i" for i
      using a_of [of i] that True by simp
    ultimately show ?thesis using run by auto
  next
    case False
    with ab have lt: "a < b" by simp
    define k where "k = b - a"
    have k: "0 < k" "b = a + k" using lt by (simp_all add: k_def)
    have same: "filter (\<lambda>r. ev_bin ?ts r = lts_bin ?ts r) [r] = []"
      using a(2) b(2) False by simp
    have fp: "first_pass tbins [r] = Inr (replicate N 0)"
      unfolding first_pass_rows [OF sorted] same using len(1) by (simp add: zeros)
    have ia: "iadd_array (replicate (length tms) 0) (replicate N 0) = Inr (replicate N 0)"
      using len(3) by (intro iadd_array_zeros) simp
    have mx: "max_bin_diff ?ts [r] = Inr (int k)"
      using a(2) b(2) k by (simp add: max_bin_diff_single)
    let ?Z = "replicate N (0::real)"
    let ?X = "?Z[a + k := ?Z ! (a + k) + (?ev - ?ts ! (a + k)),
                 a := ?Z ! a + (?ts ! Suc a - ?lts)]"
    let ?la = "map (\<lambda>j. if Suc a \<le> j \<and> j < a + k then ?X ! j + dts ! j else ?X ! j)
                 [0..<length ?Z]"
    have sa: "Suc a < N" "Suc a \<le> b" using lt b(1) by simp_all
    have pass: "span_pass dts ?ts [r] k ?Z = Inr ?la"
    proof (rule span_pass_single)
      show "lts_bin ?ts r = int a" by (rule a(2))
      show "ev_bin ?ts r = int (a + k)" using b(2) k by simp
      show "0 < k" by (rule k(1))
      show "a + k < length ?ts" using b(1) k ts(4) by simp
      show "length ?Z = length ?ts" using ts(4) by simp
      show "length dts = length ?ts" using ts(4) len(4) by simp
      show "?ts ! (a + k) \<le> ?ev" using b(1,3) k bl(2) by simp
      show "?lts \<le> ?ts ! Suc a" using a(4) [of "Suc a"] sa bl(2) by simp
    qed
    have rest: "span_loop dts ?ts [r] (k - 1) ?la = Inr ?la"
      using a(2) b(2) k by (intro span_loop_none) auto
    have "span_loop dts ?ts [r] k ?Z = Inr ?la"
    proof -
      from k(1) obtain k' where k': "k = Suc k'" by (cases k) simp_all
      with pass rest show ?thesis by simp
    qed
    then have run: "bin_rows tms dts tbins [r] = Inr ?la"
      by (simp add: bin_rows_def fp ia mx)
    define u where "u = tbins ! Suc a - ?lts"
    define v where "v = ?ev - tbins ! b"
    have la: "?la = map (\<lambda>j. if Suc a \<le> j \<and> j < b then
                            (if j = a then u else if j = b then v else 0) +
                              (tbins ! Suc j - tbins ! j)
                          else (if j = a then u else if j = b then v else 0)) [0..<N]"
      using k lt b(1) a(1) sa width bl(2)
      by (auto simp: nth_list_update u_def v_def)
    have sum: "sum_list ?la = u + v + (tbins ! b - tbins ! Suc a)"
      unfolding la by (rule sum_list_span [OF lt b(1), of u v "\<lambda>j. tbins ! j"])
    have "sum_list ?la = pr_fl r"
      unfolding sum by (simp add: u_def v_def r(4))
    moreover have "?la = ?Z[i := pr_fl r]"
      if i: "i < N" "tbins ! i \<le> ?lts \<and> ?ev \<le> tbins ! Suc i" for i
    proof -
      from a_of [of i] i have ia: "a = i" by simp
      have "\<not> Suc a < b"
      proof
        assume "Suc a < b"
        then have "tbins ! Suc (Suc a) \<le> tbins ! b" using b(1) by (intro mono) simp_all
        moreover have "tbins ! Suc a < tbins ! Suc (Suc a)" using sa by (intro step) simp
        ultimately show False using b(3) i(2) ia by simp
      qed
      with lt have bb: "b = Suc a" by simp
      with b(3) i(2) ia have ev: "?ev = tbins ! Suc a" by simp
      have "v = 0" "u = pr_fl r" by (simp_all add: v_def u_def bb ev r(4))
      then show ?thesis
        unfolding la using bb ia a(1) b(1)
        by (intro nth_equalityI) (auto simp: nth_list_update)
    qed
    ultimately show ?thesis using run by auto
  qed
qed

subsection \<open>Conservation of the livetime\<close>

text \<open>The edges of an axis whose widths fit the times.\<close>

lemma make_tbins_contiguous:
  assumes l: "length dts = length tms" "tms \<noteq> []"
    and contig: "\<forall>i. Suc i < length tms \<longrightarrow> tms ! i + dts ! i / 2 = tms ! Suc i - dts ! Suc i / 2"
  obtains tbins where "make_tbins tms dts e0 = Inr tbins" "length tbins = Suc (length tms)"
    "\<And>i. i < length tms \<Longrightarrow> tbins ! i = tms ! i - dts ! i / 2 - e0"
    "\<And>i. i < length tms \<Longrightarrow> tbins ! Suc i = tms ! i + dts ! i / 2 - e0"
    "hd tbins = tbins ! 0" "last tbins = tbins ! length tms"
proof -
  let ?N = "length tms"
  let ?tbins = "map (\<lambda>x. x - e0) (map2 (\<lambda>t d. t - d / 2) tms dts @ [last tms + last dts / 2])"
  have dn: "dts \<noteq> []" using l by auto
  have mk: "make_tbins tms dts e0 = Inr ?tbins" by (rule make_tbins_same_length [OF l])
  have len: "length ?tbins = Suc ?N" using l by simp
  have lo: "?tbins ! i = tms ! i - dts ! i / 2 - e0" if "i < ?N" for i
    using that l by (simp add: nth_append)
  have top: "?tbins ! ?N = tms ! (?N - 1) + dts ! (?N - 1) / 2 - e0"
    using l dn by (simp add: nth_append last_conv_nth)
  have hi: "?tbins ! Suc i = tms ! i + dts ! i / 2 - e0" if "i < ?N" for i
  proof (cases "Suc i < ?N")
    case True
    with contig lo [of "Suc i"] show ?thesis by simp
  next
    case False
    with that have "Suc i = ?N" by simp
    with top show ?thesis by (metis diff_Suc_1)
  qed
  have "hd ?tbins = ?tbins ! 0" using len by (intro hd_conv_nth) auto
  moreover have "last ?tbins = ?tbins ! ?N" using len by (simp add: last_conv_nth del: map_append)
  ultimately show thesis using that [OF mk len lo hi] by blast
qed

text \<open>One event whose livetime interval lies between the first and the last edge.\<close>

lemma single_event_binning:
  assumes dts: "resolve_dt tms dt = Some dts" "length dts = length tms" "tms \<noteq> []"
    and pos: "\<forall>i < length tms. 0 < dts ! i"
    and contig: "\<forall>i. Suc i < length tms \<longrightarrow> tms ! i + dts ! i / 2 = tms ! Suc i - dts ! Suc i / 2"
    and inside: "hd tms - hd dts / 2 \<le> e - p" "e \<le> last tms + last dts / 2"
    and p: "0 < p"
  shows "\<exists>la. get_livetime_per_bin tms [e] [p] dt gti = Inr la \<and>
      length la = length tms \<and> sum_list la = p \<and>
      (\<forall>i < length tms. tms ! i - dts ! i / 2 \<le> e - p \<and> e \<le> tms ! i + dts ! i / 2 \<longrightarrow>
          la = (replicate (length tms) 0)[i := p])"
proof -
  let ?N = "length tms"
  have N: "0 < ?N" using dts(3) by simp
  have dn: "dts \<noteq> []" using dts(2,3) by auto
  obtain tbins where tb: "make_tbins tms dts e = Inr tbins" "length tbins = Suc ?N"
    "\<And>i. i < ?N \<Longrightarrow> tbins ! i = tms ! i - dts ! i / 2 - e"
    "\<And>i. i < ?N \<Longrightarrow> tbins ! Suc i = tms ! i + dts ! i / 2 - e"
    "hd tbins = tbins ! 0" "last tbins = tbins ! ?N"
    using make_tbins_contiguous [OF dts(2,3) contig, where ?e0.0 = e] by blast
  define r where "r = \<lparr>ev_fl = 0, pr_fl = p, livetime_starts = - p\<rparr>"
  have rows: "shift_rows e [e] [p] = [r]" by (simp add: shift_rows_def r_def)
  have first: "tbins ! 0 = hd tms - hd dts / 2 - e"
    using tb(3) [of 0] N dts(3) dn by (simp add: hd_conv_nth)
  have lastN: "tbins ! ?N = last tms + last dts / 2 - e"
    using tb(4) [of "?N - 1"] N dts(2,3) dn by (simp add: last_conv_nth)
  have norm: "normalize_rows tbins [r] = [r]"
    using inside p first lastN tb(5,6)
    by (simp add: normalize_rows_def in_range_def clamp_start_def clamp_end_def r_def)
  have run: "get_livetime_per_bin tms [e] [p] dt gti = bin_rows tms dts tbins [r]"
    by (simp add: get_livetime_per_bin_stages dts(1) tb(1) rows norm)
  have "\<exists>la. bin_rows tms dts tbins [r] = Inr la \<and> length la = ?N \<and> sum_list la = pr_fl r \<and>
          (\<forall>i < ?N. tbins ! i \<le> livetime_starts r \<and> ev_fl r \<le> tbins ! Suc i \<longrightarrow>
              la = (replicate ?N 0)[i := pr_fl r])"
  proof (rule bin_rows_single [OF tb(2) N refl dts(2)])
    show "dts ! i = tbins ! Suc i - tbins ! i" if "i < ?N" for i
      using tb(3,4) [OF that] by simp
    show "0 < dts ! i" if "i < ?N" for i using pos that by simp
    show "tbins ! 0 \<le> livetime_starts r" using first inside(1) by (simp add: r_def)
    show "livetime_starts r < ev_fl r" using p by (simp add: r_def)
    show "ev_fl r \<le> tbins ! ?N" using lastN inside(2) by (simp add: r_def)
    show "pr_fl r = ev_fl r - livetime_starts r" by (simp add: r_def)
  qed
  then obtain la where la: "bin_rows tms dts tbins [r] = Inr la" "length la = ?N"
    "sum_list la = p"
    "\<And>i. i < ?N \<Longrightarrow> tbins ! i \<le> - p \<and> 0 \<le> tbins ! Suc i \<Longrightarrow> la = (replicate ?N 0)[i := p]"
    by (auto simp: r_def)
  have "la = (replicate ?N 0)[i := p]"
    if "i < ?N" "tms ! i - dts ! i / 2 \<le> e - p \<and> e \<le> tms ! i + dts ! i / 2" for i
    using la(4) [of i] tb(3,4) [of i] that by simp
  with run la(1,2,3) show ?thesis by auto
qed

text \<open>
  C1. Take a contiguous axis (every bin ends where the next one starts; a uniform
  axis with a scalar \<^verbatim>\<open>dt\<close> is one) with positive widths, and one event with a
  positive prior whose livetime interval \<open>[e - p, e)\<close> lies between the first and
  the last edge. Then the call returns an array of \<^verbatim>\<open>len(times)\<close> values whose
  sum is the prior, whatever the number of bins the interval spans; and when the
  interval lies inside bin \<open>i\<close>, the array is zero except for the prior at \<open>i\<close>.
\<close>

theorem livetime_conserved:
  assumes dts: "resolve_dt tms dt = Some dts" "length dts = length tms" "tms \<noteq> []"
    and pos: "\<forall>i < length tms. 0 < dts ! i"
    and contig: "\<forall>i. Suc i < length tms \<longrightarrow> tms ! i + dts ! i / 2 = tms ! Suc i - dts ! Suc i / 2"
    and inside: "hd tms - hd dts / 2 \<le> e - p" "e \<le> last tms + last dts / 2"
    and p: "0 < p"
  shows "\<exists>la. get_livetime_per_bin tms [e] [p] dt gti = Inr la \<and>
      length la = length tms \<and> sum_list la = p \<and>
      (\<forall>i < length tms. tms ! i - dts ! i / 2 \<le> e - p \<and> e \<le> tms ! i + dts ! i / 2 \<longrightarrow>
          la = (replicate (length tms) 0)[i := p])"
  using assms by (rule single_event_binning)

text \<open>An instance with seven bins of width one: the interval from 0.25
  to 6.25 has two partial ends and five whole bins between them.\<close>

theorem livetime_conserved_witness:
  "\<exists>la. get_livetime_per_bin [0.5, 1.5, 2.5, 3.5, 4.5, 5.5, 6.5] [6.25] [6] (DtScalar 1) None = Inr la \<and>
        length la = 7 \<and> sum_list la = 6"
proof -
  let ?tms = "[0.5, 1.5, 2.5, 3.5, 4.5, 5.5, 6.5 :: real]"
  let ?dts = "[1, 1, 1, 1, 1, 1, 1 :: real]"
  have d: "resolve_dt ?tms (DtScalar 1) = Some ?dts"
    by (simp add: resolve_dt_def numeral_nat)
  have l: "length ?dts = length ?tms" "?tms \<noteq> []" by simp_all
  have pos: "\<forall>i < length ?tms. 0 < ?dts ! i"
    by (simp add: less_Suc_eq numeral_nat all_conj_distrib)
  have c: "\<forall>i. Suc i < length ?tms \<longrightarrow>
      ?tms ! i + ?dts ! i / 2 = ?tms ! Suc i - ?dts ! Suc i / 2"
    by (simp add: less_Suc_eq numeral_nat all_conj_distrib)
  have i: "hd ?tms - hd ?dts / 2 \<le> 6.25 - 6"
    "(6.25::real) \<le> last ?tms + last ?dts / 2" "(0::real) < 6"
    by simp_all
  from livetime_conserved [OF d l pos c i, of None] show ?thesis by auto
qed

subsection \<open>Boundary handling\<close>

text \<open>
  C6. Let the first edge be \<^verbatim>\<open>times[0] - dt[0]/2\<close> and the last edge
  \<^verbatim>\<open>times[-1] + dt[-1]/2\<close>, more than \<open>1e-9\<close> apart.
  An event after the first edge whose livetime starts before it is binned as if its
  livetime started at the first edge plus \<open>1e-9\<close>, its prior shrunk to the rest.
  An event after the last edge whose livetime starts before it is binned as an event
  at the last edge minus \<open>1e-9\<close> with the same livetime start.
  An event at or before the first edge, or with its livetime start at or after the
  last edge, changes nothing: the call returns what it returns without that event
  (some other event being there).

  On a contiguous axis with positive widths this fixes the values. A single event
  inside the axis whose livetime starts before the first edge yields the livetime
  from the first edge plus \<open>1e-9\<close> to the event, all of it in bin 0 when the event
  lies in bin 0. A single event after the last edge whose livetime starts inside the
  axis yields the livetime from its start to the last edge minus \<open>1e-9\<close>, all of it
  in the last bin when the start lies there. A single event that covers the whole
  axis yields the length of the axis minus \<open>2e-9\<close>. A discarded first event
  followed by an event inside the axis yields the prior of the second event only.
\<close>

theorem boundary_handling:
  assumes dts: "resolve_dt tms dt = Some dts"
    and l1: "length es1 = length ps1" and l2: "length es2 = length ps2"
    and fe: "fe = hd tms - hd dts / 2" and le: "le = last tms + last dts / 2"
  shows
    "(e - p < fe \<and> fe < e \<and> fe + eps < le \<longrightarrow>
       get_livetime_per_bin tms (es1 @ e # es2) (ps1 @ p # ps2) dt gti =
       get_livetime_per_bin tms (es1 @ e # es2) (ps1 @ (e - (fe + eps)) # ps2) dt gti) \<and>
     (e - p < le \<and> le < e \<and> fe + eps < le \<longrightarrow>
       get_livetime_per_bin tms (es1 @ e # es2) (ps1 @ p # ps2) dt gti =
       get_livetime_per_bin tms (es1 @ (le - eps) # es2) (ps1 @ ((le - eps) - (e - p)) # ps2) dt gti) \<and>
     ((e \<le> fe \<or> le \<le> e - p) \<and> es1 @ es2 \<noteq> [] \<longrightarrow>
       get_livetime_per_bin tms (es1 @ e # es2) (ps1 @ p # ps2) dt gti =
       get_livetime_per_bin tms (es1 @ es2) (ps1 @ ps2) dt gti) \<and>
     (length dts = length tms \<and> tms \<noteq> [] \<and> (\<forall>i < length tms. 0 < dts ! i) \<and>
      (\<forall>i. Suc i < length tms \<longrightarrow> tms ! i + dts ! i / 2 = tms ! Suc i - dts ! Suc i / 2) \<longrightarrow>
       (e - p < fe \<and> fe + eps < e \<and> e \<le> le \<longrightarrow>
          (\<exists>la. get_livetime_per_bin tms [e] [p] dt gti = Inr la \<and> length la = length tms \<and>
             sum_list la = e - (fe + eps) \<and>
             (e \<le> tms ! 0 + dts ! 0 / 2 \<longrightarrow>
                la = (replicate (length tms) 0)[0 := e - (fe + eps)]))) \<and>
       (fe \<le> e - p \<and> e - p < le - eps \<and> le < e \<longrightarrow>
          (\<exists>la. get_livetime_per_bin tms [e] [p] dt gti = Inr la \<and> length la = length tms \<and>
             sum_list la = (le - eps) - (e - p) \<and>
             (tms ! (length tms - 1) - dts ! (length tms - 1) / 2 \<le> e - p \<longrightarrow>
                la = (replicate (length tms) 0)[length tms - 1 := (le - eps) - (e - p)]))) \<and>
       (e - p < fe \<and> le < e \<and> fe + eps < le - eps \<longrightarrow>
          (\<exists>la. get_livetime_per_bin tms [e] [p] dt gti = Inr la \<and> length la = length tms \<and>
             sum_list la = (le - eps) - (fe + eps))) \<and>
       ((e \<le> fe \<or> le \<le> e - p) \<and> fe \<le> e1 - p1 \<and> e1 \<le> le \<and> 0 < p1 \<longrightarrow>
          (\<exists>la. get_livetime_per_bin tms [e, e1] [p, p1] dt gti = Inr la \<and>
             length la = length tms \<and> sum_list la = p1 \<and>
             (\<forall>i < length tms. tms ! i - dts ! i / 2 \<le> e1 - p1 \<and> e1 \<le> tms ! i + dts ! i / 2 \<longrightarrow>
                la = (replicate (length tms) 0)[i := p1]))))"
proof -
  let ?N = "length tms"
  have c1: "e - p < fe \<and> fe < e \<and> fe + eps < le \<longrightarrow>
       get_livetime_per_bin tms (es1 @ e # es2) (ps1 @ p # ps2) dt gti =
       get_livetime_per_bin tms (es1 @ e # es2) (ps1 @ (e - (fe + eps)) # ps2) dt gti"
    using clamp_start_call [OF dts l1 l2 fe le] by blast
  have c2: "e - p < le \<and> le < e \<and> fe + eps < le \<longrightarrow>
       get_livetime_per_bin tms (es1 @ e # es2) (ps1 @ p # ps2) dt gti =
       get_livetime_per_bin tms (es1 @ (le - eps) # es2) (ps1 @ ((le - eps) - (e - p)) # ps2) dt gti"
    using clamp_end_call [OF dts l1 l2 fe le] by blast
  have c3: "(e \<le> fe \<or> le \<le> e - p) \<and> es1 @ es2 \<noteq> [] \<longrightarrow>
       get_livetime_per_bin tms (es1 @ e # es2) (ps1 @ p # ps2) dt gti =
       get_livetime_per_bin tms (es1 @ es2) (ps1 @ ps2) dt gti"
    using discard_call [OF dts l1 l2 fe le] by blast
  have v: "(e - p < fe \<and> fe + eps < e \<and> e \<le> le \<longrightarrow>
          (\<exists>la. get_livetime_per_bin tms [e] [p] dt gti = Inr la \<and> length la = ?N \<and>
             sum_list la = e - (fe + eps) \<and>
             (e \<le> tms ! 0 + dts ! 0 / 2 \<longrightarrow> la = (replicate ?N 0)[0 := e - (fe + eps)]))) \<and>
       (fe \<le> e - p \<and> e - p < le - eps \<and> le < e \<longrightarrow>
          (\<exists>la. get_livetime_per_bin tms [e] [p] dt gti = Inr la \<and> length la = ?N \<and>
             sum_list la = (le - eps) - (e - p) \<and>
             (tms ! (?N - 1) - dts ! (?N - 1) / 2 \<le> e - p \<longrightarrow>
                la = (replicate ?N 0)[?N - 1 := (le - eps) - (e - p)]))) \<and>
       (e - p < fe \<and> le < e \<and> fe + eps < le - eps \<longrightarrow>
          (\<exists>la. get_livetime_per_bin tms [e] [p] dt gti = Inr la \<and> length la = ?N \<and>
             sum_list la = (le - eps) - (fe + eps))) \<and>
       ((e \<le> fe \<or> le \<le> e - p) \<and> fe \<le> e1 - p1 \<and> e1 \<le> le \<and> 0 < p1 \<longrightarrow>
          (\<exists>la. get_livetime_per_bin tms [e, e1] [p, p1] dt gti = Inr la \<and>
             length la = ?N \<and> sum_list la = p1 \<and>
             (\<forall>i < ?N. tms ! i - dts ! i / 2 \<le> e1 - p1 \<and> e1 \<le> tms ! i + dts ! i / 2 \<longrightarrow>
                la = (replicate ?N 0)[i := p1])))"
    if ax: "length dts = ?N" "tms \<noteq> []" "\<forall>i < ?N. 0 < dts ! i"
      "\<forall>i. Suc i < ?N \<longrightarrow> tms ! i + dts ! i / 2 = tms ! Suc i - dts ! Suc i / 2"
  proof -
    have dn: "dts \<noteq> []" using ax(1,2) by auto
    have N: "0 < ?N" using ax(2) by simp
    have fe0: "fe = tms ! 0 - dts ! 0 / 2"
      using fe ax(2) dn by (simp add: hd_conv_nth)
    have leN: "le = tms ! (?N - 1) + dts ! (?N - 1) / 2"
      using le ax(1,2) dn by (simp add: last_conv_nth)
    note one = single_event_binning [OF dts ax(1,2,3,4), folded fe le]
    note nil = Nil_is_append_conv append_Nil list.size(3)
    have s: "\<exists>la. get_livetime_per_bin tms [e] [p] dt gti = Inr la \<and> length la = ?N \<and>
             sum_list la = e - (fe + eps) \<and>
             (e \<le> tms ! 0 + dts ! 0 / 2 \<longrightarrow> la = (replicate ?N 0)[0 := e - (fe + eps)])"
      if a: "e - p < fe" "fe + eps < e" "e \<le> le"
    proof -
      have "get_livetime_per_bin tms ([] @ e # []) ([] @ p # []) dt gti =
            get_livetime_per_bin tms ([] @ e # []) ([] @ (e - (fe + eps)) # []) dt gti"
        using a eps_pos by (intro clamp_start_call [OF dts _ _ fe le]) simp_all
      then have eq: "get_livetime_per_bin tms [e] [p] dt gti =
            get_livetime_per_bin tms [e] [e - (fe + eps)] dt gti" by simp
      from one [of e "e - (fe + eps)" gti] a eps_pos
      obtain la where la: "get_livetime_per_bin tms [e] [e - (fe + eps)] dt gti = Inr la"
        "length la = ?N" "sum_list la = e - (fe + eps)"
        "\<forall>i < ?N. tms ! i - dts ! i / 2 \<le> e - (e - (fe + eps)) \<and> e \<le> tms ! i + dts ! i / 2 \<longrightarrow>
            la = (replicate ?N 0)[i := e - (fe + eps)]"
        by auto
      have "la = (replicate ?N 0)[0 := e - (fe + eps)]" if "e \<le> tms ! 0 + dts ! 0 / 2"
        using la(4) [rule_format, of 0] N that fe0 eps_pos by simp
      with eq la(1,2,3) show ?thesis by simp
    qed
    have t: "\<exists>la. get_livetime_per_bin tms [e] [p] dt gti = Inr la \<and> length la = ?N \<and>
             sum_list la = (le - eps) - (e - p) \<and>
             (tms ! (?N - 1) - dts ! (?N - 1) / 2 \<le> e - p \<longrightarrow>
                la = (replicate ?N 0)[?N - 1 := (le - eps) - (e - p)])"
      if a: "fe \<le> e - p" "e - p < le - eps" "le < e"
    proof -
      have "get_livetime_per_bin tms ([] @ e # []) ([] @ p # []) dt gti =
            get_livetime_per_bin tms ([] @ (le - eps) # []) ([] @ ((le - eps) - (e - p)) # []) dt gti"
        using a eps_pos by (intro clamp_end_call [OF dts _ _ fe le]) simp_all
      then have eq: "get_livetime_per_bin tms [e] [p] dt gti =
            get_livetime_per_bin tms [le - eps] [(le - eps) - (e - p)] dt gti" by simp
      from one [of "le - eps" "(le - eps) - (e - p)" gti] a eps_pos
      obtain la where la: "get_livetime_per_bin tms [le - eps] [(le - eps) - (e - p)] dt gti = Inr la"
        "length la = ?N" "sum_list la = (le - eps) - (e - p)"
        "\<forall>i < ?N. tms ! i - dts ! i / 2 \<le> (le - eps) - ((le - eps) - (e - p)) \<and>
            le - eps \<le> tms ! i + dts ! i / 2 \<longrightarrow>
            la = (replicate ?N 0)[i := (le - eps) - (e - p)]"
        by auto
      have "la = (replicate ?N 0)[?N - 1 := (le - eps) - (e - p)]"
        if "tms ! (?N - 1) - dts ! (?N - 1) / 2 \<le> e - p"
        using la(4) [rule_format, of "?N - 1"] N that leN eps_pos by simp
      with eq la(1,2,3) show ?thesis by simp
    qed
    have u: "\<exists>la. get_livetime_per_bin tms [e] [p] dt gti = Inr la \<and> length la = ?N \<and>
             sum_list la = (le - eps) - (fe + eps)"
      if a: "e - p < fe" "le < e" "fe + eps < le - eps"
    proof -
      have "get_livetime_per_bin tms ([] @ e # []) ([] @ p # []) dt gti =
            get_livetime_per_bin tms ([] @ e # []) ([] @ (e - (fe + eps)) # []) dt gti"
        using a eps_pos by (intro clamp_start_call [OF dts _ _ fe le]) simp_all
      also have "\<dots> = get_livetime_per_bin tms ([] @ (le - eps) # [])
             ([] @ ((le - eps) - (e - (e - (fe + eps)))) # []) dt gti"
        using a eps_pos by (intro clamp_end_call [OF dts _ _ fe le]) simp_all
      finally have eq: "get_livetime_per_bin tms [e] [p] dt gti =
            get_livetime_per_bin tms [le - eps] [(le - eps) - (fe + eps)] dt gti" by simp
      from one [of "le - eps" "(le - eps) - (fe + eps)" gti] a eps_pos
      obtain la where "get_livetime_per_bin tms [le - eps] [(le - eps) - (fe + eps)] dt gti = Inr la"
        "length la = ?N" "sum_list la = (le - eps) - (fe + eps)"
        by auto
      with eq show ?thesis by simp
    qed
    have w: "\<exists>la. get_livetime_per_bin tms [e, e1] [p, p1] dt gti = Inr la \<and>
             length la = ?N \<and> sum_list la = p1 \<and>
             (\<forall>i < ?N. tms ! i - dts ! i / 2 \<le> e1 - p1 \<and> e1 \<le> tms ! i + dts ! i / 2 \<longrightarrow>
                la = (replicate ?N 0)[i := p1])"
      if a: "e \<le> fe \<or> le \<le> e - p" "fe \<le> e1 - p1" "e1 \<le> le" "0 < p1"
    proof -
      have "get_livetime_per_bin tms ([] @ e # [e1]) ([] @ p # [p1]) dt gti =
            get_livetime_per_bin tms ([] @ [e1]) ([] @ [p1]) dt gti"
        using a(1) by (intro discard_call [OF dts _ _ fe le]) simp_all
      then have eq: "get_livetime_per_bin tms [e, e1] [p, p1] dt gti =
            get_livetime_per_bin tms [e1] [p1] dt gti" by simp
      from one [of e1 p1 gti] a(2,3,4) show ?thesis unfolding eq by blast
    qed
    from s t u w show ?thesis by blast
  qed
  from c1 c2 c3 v show ?thesis by blast
qed

text \<open>Instances with two bins of width one (edges 0, 1, 2): among other events,
  an event at 0.3 with prior 0.7, an event at 2.5 with prior 1, and a first event
  at -1 with prior 1; then the values for single events and for a discarded first
  event.\<close>

theorem boundary_handling_witness:
  "get_livetime_per_bin [0.5, 1.5] ([0.4] @ 0.3 # [2.5]) ([0.1] @ 0.7 # [1]) (DtScalar 1) None =
   get_livetime_per_bin [0.5, 1.5] ([0.4] @ 0.3 # [2.5]) ([0.1] @ (0.3 - (0 + eps)) # [1]) (DtScalar 1) None \<and>
   get_livetime_per_bin [0.5, 1.5] ([0.4, 0.3] @ 2.5 # []) ([0.1, 0.7] @ 1 # []) (DtScalar 1) None =
   get_livetime_per_bin [0.5, 1.5] ([0.4, 0.3] @ (2 - eps) # []) ([0.1, 0.7] @ ((2 - eps) - (2.5 - 1)) # []) (DtScalar 1) None \<and>
   get_livetime_per_bin [0.5, 1.5] ([] @ (-1) # [0.4, 0.3]) ([] @ 1 # [0.1, 0.7]) (DtScalar 1) None =
   get_livetime_per_bin [0.5, 1.5] ([] @ [0.4, 0.3]) ([] @ [0.1, 0.7]) (DtScalar 1) None \<and>
   get_livetime_per_bin [0.5, 1.5] [0.3] [0.7] (DtScalar 1) None = Inr [0.3 - (0 + eps), 0] \<and>
   get_livetime_per_bin [0.5, 1.5] [2.5] [1] (DtScalar 1) None = Inr [0, (2 - eps) - (2.5 - 1)] \<and>
   (\<exists>la. get_livetime_per_bin [0.5, 1.5] [2.5] [3] (DtScalar 1) None = Inr la \<and> length la = 2 \<and>
      sum_list la = (2 - eps) - (0 + eps)) \<and>
   get_livetime_per_bin [0.5, 1.5] [-1, 0.4] [1, 0.1] (DtScalar 1) None = Inr [0.1, 0] \<and>
   get_livetime_per_bin [0.5, 1.5] [3.5, 1.9] [1.5, 0.4] (DtScalar 1) None = Inr [0, 0.4]"
proof -
  let ?tms = "[0.5, 1.5 :: real]"
  have dts: "resolve_dt ?tms (DtScalar 1) = Some [1, 1]"
    by (simp add: resolve_dt_def numeral_2_eq_2)
  have fe: "(0::real) = hd ?tms - hd [1, 1 :: real] / 2"
    and le: "(2::real) = last ?tms + last [1, 1 :: real] / 2" by simp_all
  have e: "(0::real) + eps < 2" "(0::real) + eps < 0.3" "(1.5::real) < 2 - eps"
    "(0::real) + eps < 2 - eps"
    by (simp_all add: eps_def)
  have ax: "length [1, 1 :: real] = length ?tms \<and> ?tms \<noteq> [] \<and>
      (\<forall>i < length ?tms. 0 < [1, 1 :: real] ! i) \<and>
      (\<forall>i. Suc i < length ?tms \<longrightarrow>
         ?tms ! i + [1, 1 :: real] ! i / 2 = ?tms ! Suc i - [1, 1 :: real] ! Suc i / 2)"
    by (simp add: less_Suc_eq numeral_nat all_conj_distrib)
  have 1: "get_livetime_per_bin [0.5, 1.5] ([0.4] @ 0.3 # [2.5]) ([0.1] @ 0.7 # [1]) (DtScalar 1) None =
   get_livetime_per_bin [0.5, 1.5] ([0.4] @ 0.3 # [2.5]) ([0.1] @ (0.3 - (0 + eps)) # [1]) (DtScalar 1) None"
    using boundary_handling [OF dts _ _ fe le, of "[0.4]" "[0.1]" "[2.5]" "[1]" "0.3" "0.7" None] e
    by simp
  have 2: "get_livetime_per_bin [0.5, 1.5] ([0.4, 0.3] @ 2.5 # []) ([0.1, 0.7] @ 1 # []) (DtScalar 1) None =
   get_livetime_per_bin [0.5, 1.5] ([0.4, 0.3] @ (2 - eps) # []) ([0.1, 0.7] @ ((2 - eps) - (2.5 - 1)) # []) (DtScalar 1) None"
    using boundary_handling [OF dts _ _ fe le, of "[0.4, 0.3]" "[0.1, 0.7]" "[]" "[]" "2.5" 1 None] e
    by simp
  have 3: "get_livetime_per_bin [0.5, 1.5] ([] @ (-1) # [0.4, 0.3]) ([] @ 1 # [0.1, 0.7]) (DtScalar 1) None =
   get_livetime_per_bin [0.5, 1.5] ([] @ [0.4, 0.3]) ([] @ [0.1, 0.7]) (DtScalar 1) None"
    using boundary_handling [OF dts _ _ fe le, of "[]" "[]" "[0.4, 0.3]" "[0.1, 0.7]" "-1" 1 None]
    by simp
  have 4: "get_livetime_per_bin [0.5, 1.5] [0.3] [0.7] (DtScalar 1) None = Inr [0.3 - (0 + eps), 0]"
    using boundary_handling [OF dts _ _ fe le, of "[]" "[]" "[]" "[]" "0.3" "0.7" None 0 0] e ax
    by (auto simp: numeral_nat)
  have 5: "get_livetime_per_bin [0.5, 1.5] [2.5] [1] (DtScalar 1) None = Inr [0, (2 - eps) - (2.5 - 1)]"
    using boundary_handling [OF dts _ _ fe le, of "[]" "[]" "[]" "[]" "2.5" 1 None 0 0] e ax
    by (auto simp: numeral_nat)
  have 6: "\<exists>la. get_livetime_per_bin [0.5, 1.5] [2.5] [3] (DtScalar 1) None = Inr la \<and> length la = 2 \<and>
      sum_list la = (2 - eps) - (0 + eps)"
  proof -
    have a: "(2.5::real) - 3 < 0" "(2::real) < 2.5" by simp_all
    have "\<exists>la. get_livetime_per_bin ?tms [2.5] [3] (DtScalar 1) None = Inr la \<and>
        length la = length ?tms \<and> sum_list la = (2 - eps) - (0 + eps)"
      using boundary_handling [OF dts _ _ fe le, of "[]" "[]" "[]" "[]" "2.5" 3 None 0 0] e(4) a ax
      by blast
    then show ?thesis by (simp add: numeral_2_eq_2)
  qed
  have 7: "get_livetime_per_bin [0.5, 1.5] [-1, 0.4] [1, 0.1] (DtScalar 1) None = Inr [0.1, 0]"
    using boundary_handling [OF dts _ _ fe le, of "[]" "[]" "[]" "[]" "-1" 1 None "0.4" "0.1"] ax
    by (auto simp: numeral_nat)
  have 8: "get_livetime_per_bin [0.5, 1.5] [3.5, 1.9] [1.5, 0.4] (DtScalar 1) None = Inr [0, 0.4]"
    using boundary_handling [OF dts _ _ fe le, of "[]" "[]" "[]" "[]" "3.5" "1.5" None "1.9" "0.4"] ax
    by (auto simp: numeral_nat)
  from 1 2 3 4 5 6 7 8 show ?thesis by blast
qed

subsection \<open>Bounds of the livetime\<close>

lemma take_idx_valid:
  "\<forall>k \<in> set idxs. 0 \<le> k \<and> nat k < length xs \<Longrightarrow>
     take_idx xs idxs = Inr (map (\<lambda>k. xs ! nat k) idxs)"
  by (induction idxs) (auto simp: py_index_def norm_idx_def)

lemma put_idx_nth:
  assumes "\<forall>k \<in> set idxs. 0 \<le> k \<and> nat k < length xs" "length ws = length idxs" "i < length xs"
  shows "put_idx xs idxs ws ! i = xs ! i \<or>
         (\<exists>j < length idxs. idxs ! j = int i \<and> put_idx xs idxs ws ! i = ws ! j)"
  using assms
proof (induction xs idxs ws rule: put_idx.induct)
  case (1 xs k js v vs)
  let ?xs = "xs[norm_idx xs k := v]"
  from "1.prems" have k: "0 \<le> k" "nat k < length xs" by simp_all
  then have nk: "norm_idx xs k = nat k" by (simp add: norm_idx_def)
  have ih: "put_idx ?xs js vs ! i = ?xs ! i \<or>
         (\<exists>j < length js. js ! j = int i \<and> put_idx ?xs js vs ! i = vs ! j)"
    using "1.prems" by (intro "1.IH") simp_all
  then show ?case
  proof
    assume a: "put_idx ?xs js vs ! i = ?xs ! i"
    show ?thesis
    proof (cases "nat k = i")
      case True
      with a nk "1.prems"(3) k have "(k # js) ! 0 = int i" "put_idx xs (k # js) (v # vs) ! i = (v # vs) ! 0"
        by auto
      then show ?thesis by (intro disjI2 exI [of _ 0]) simp
    next
      case False
      with a nk show ?thesis by simp
    qed
  next
    assume "\<exists>j < length js. js ! j = int i \<and> put_idx ?xs js vs ! i = vs ! j"
    then obtain j where "j < length js" "js ! j = int i" "put_idx ?xs js vs ! i = vs ! j"
      by blast
    then show ?thesis by (intro disjI2 exI [of _ "Suc j"]) simp
  qed
qed simp_all

text \<open>What an in-place addition at valid indices leaves at position \<open>i\<close>.\<close>

lemma iadd_at_nth:
  assumes v: "\<forall>k \<in> set idxs. 0 \<le> k \<and> nat k < length la" and l: "length vals = length idxs"
    and i: "i < length la"
  obtains la' where "iadd_at la idxs vals = Inr la'" "length la' = length la"
    "la' ! i = la ! i \<or> (\<exists>j < length idxs. idxs ! j = int i \<and> la' ! i = la ! i + vals ! j)"
proof -
  let ?ws = "map2 (+) (map (\<lambda>k. la ! nat k) idxs) vals"
  let ?la' = "put_idx la idxs ?ws"
  have run: "iadd_at la idxs vals = Inr ?la'"
    by (simp add: iadd_at_def take_idx_valid [OF v])
  have lw: "length ?ws = length idxs" using l by simp
  from put_idx_nth [OF v lw i]
  have "?la' ! i = la ! i \<or> (\<exists>j < length idxs. idxs ! j = int i \<and> ?la' ! i = la ! i + vals ! j)"
  proof
    assume "?la' ! i = la ! i"
    then show ?thesis ..
  next
    assume "\<exists>j < length idxs. idxs ! j = int i \<and> ?la' ! i = ?ws ! j"
    then obtain j where j: "j < length idxs" "idxs ! j = int i" "?la' ! i = ?ws ! j" by blast
    with l have "?ws ! j = la ! i + vals ! j" by simp
    with j show ?thesis by auto
  qed
  with run show thesis by (intro that [of ?la']) (simp_all add: put_idx_length)
qed

lemma nth_le_sum_list:
  assumes "\<forall>x \<in> set xs. (0::real) \<le> x" "j < length xs"
  shows "xs ! j \<le> sum_list xs"
  using assms
proof (induction xs arbitrary: j)
  case Nil
  then show ?case by simp
next
  case (Cons x xs)
  have s: "0 \<le> sum_list xs" using Cons.prems(1) by (intro sum_list_nonneg) simp
  show ?case
  proof (cases j)
    case 0
    with s show ?thesis by simp
  next
    case (Suc j')
    with Cons have "xs ! j' \<le> sum_list xs" by simp
    with Suc Cons.prems(1) show ?thesis by simp
  qed
qed

text \<open>For index and value taken from the same rows: the value at \<open>i\<close> does not go
  down, and goes up by at most what the rows with index \<open>i\<close> bring.\<close>

lemma iadd_at_rows_bound:
  fixes f :: "'r \<Rightarrow> int" and g :: "'r \<Rightarrow> real"
  assumes v: "\<forall>r \<in> set rs. 0 \<le> f r \<and> nat (f r) < length la"
    and g: "\<forall>r \<in> set rs. 0 \<le> g r" and i: "i < length la"
  obtains la' where "iadd_at la (map f rs) (map g rs) = Inr la'" "length la' = length la"
    "la ! i \<le> la' ! i" "la' ! i \<le> la ! i + sum_list (map (\<lambda>r. if f r = int i then g r else 0) rs)"
proof -
  have v': "\<forall>k \<in> set (map f rs). 0 \<le> k \<and> nat k < length la" using v by simp
  obtain la' where la': "iadd_at la (map f rs) (map g rs) = Inr la'" "length la' = length la"
    "la' ! i = la ! i \<or>
     (\<exists>j < length (map f rs). map f rs ! j = int i \<and> la' ! i = la ! i + map g rs ! j)"
    using iadd_at_nth [OF v' _ i, of "map g rs"] by auto
  let ?c = "map (\<lambda>r. if f r = int i then g r else 0) rs"
  have c0: "\<forall>x \<in> set ?c. 0 \<le> x" using g by auto
  then have s0: "0 \<le> sum_list ?c" by (intro sum_list_nonneg) blast
  from la'(3) have "la ! i \<le> la' ! i \<and> la' ! i \<le> la ! i + sum_list ?c"
  proof
    assume "la' ! i = la ! i"
    with s0 show ?thesis by simp
  next
    assume "\<exists>j < length (map f rs). map f rs ! j = int i \<and> la' ! i = la ! i + map g rs ! j"
    then obtain j where j: "j < length rs" "f (rs ! j) = int i" "la' ! i = la ! i + g (rs ! j)"
      by auto
    then have "?c ! j = g (rs ! j)" by simp
    moreover have "?c ! j \<le> sum_list ?c" using c0 j(1) by (intro nth_le_sum_list) simp_all
    moreover have "0 \<le> g (rs ! j)" using g j(1) by simp
    ultimately show ?thesis using j(3) by simp
  qed
  with la'(1,2) show thesis by (intro that [of la']) simp_all
qed

lemma map2_same: "map2 f (map g xs) (map h xs) = map (\<lambda>x. f (g x) (h x)) xs"
  by (induction xs) auto

lemma complete_bins_bound:
  fixes f :: "'r \<Rightarrow> int"
  assumes "\<forall>r \<in> set good. 0 \<le> f r + i0 \<and> f r + i0 + int n \<le> int (length la)"
    and "length dts = length la" "\<forall>j < length dts. 0 \<le> dts ! j" "i < length la"
  obtains la' where "complete_bins dts (map f good) i0 n la = Inr la'" "length la' = length la"
    "la ! i \<le> la' ! i"
    "la' ! i \<le> la ! i +
       sum_list (map (\<lambda>r. if f r + i0 \<le> int i \<and> int i < f r + i0 + int n then dts ! i else 0) good)"
  using assms
proof (induction n arbitrary: i0 la thesis)
  case 0
  have "\<not> (f r + i0 \<le> int i \<and> int i < f r + i0 + int 0)" for r by simp
  then have "sum_list (map (\<lambda>r. if f r + i0 \<le> int i \<and> int i < f r + i0 + int 0
                               then dts ! i else 0) good) = 0"
    by (simp only: if_False) simp
  then show ?case by (intro "0.prems"(1) [of la]) simp_all
next
  case (Suc n)
  let ?f = "\<lambda>r. f r + i0" and ?g = "\<lambda>r. dts ! nat (f r + i0)"
  have idx: "map (\<lambda>b. b + i0) (map f good) = map ?f good" by simp
  have v: "\<forall>r \<in> set good. 0 \<le> ?f r \<and> nat (?f r) < length la"
    using Suc.prems(2) by auto
  have v': "\<forall>k \<in> set (map ?f good). 0 \<le> k \<and> nat k < length dts"
    using v Suc.prems(3) by auto
  have t: "take_idx dts (map ?f good) = Inr (map ?g good)"
    using take_idx_valid [OF v'] by (simp add: comp_def)
  have g: "\<forall>r \<in> set good. 0 \<le> ?g r" using v Suc.prems(3,4) by auto
  obtain la1 where la1: "iadd_at la (map ?f good) (map ?g good) = Inr la1" "length la1 = length la"
    "la ! i \<le> la1 ! i"
    "la1 ! i \<le> la ! i + sum_list (map (\<lambda>r. if ?f r = int i then ?g r else 0) good)"
    using iadd_at_rows_bound [OF v g Suc.prems(5)] by blast
  obtain la' where la': "complete_bins dts (map f good) (i0 + 1) n la1 = Inr la'"
    "length la' = length la1" "la1 ! i \<le> la' ! i"
    "la' ! i \<le> la1 ! i +
       sum_list (map (\<lambda>r. if f r + (i0 + 1) \<le> int i \<and> int i < f r + (i0 + 1) + int n
                          then dts ! i else 0) good)"
  proof (rule Suc.IH [of "i0 + 1" la1])
    show "\<forall>r \<in> set good. 0 \<le> f r + (i0 + 1) \<and> f r + (i0 + 1) + int n \<le> int (length la1)"
      using Suc.prems(2) la1(2) by auto
    show "length dts = length la1" using Suc.prems(3) la1(2) by simp
    show "\<forall>j < length dts. 0 \<le> dts ! j" by (rule Suc.prems(4))
    show "i < length la1" using Suc.prems(5) la1(2) by simp
  qed blast
  have run: "complete_bins dts (map f good) i0 (Suc n) la = Inr la'"
    by (simp only: complete_bins.simps idx t la1(1) la'(1) sum.case)
  have "sum_list (map (\<lambda>r. if ?f r = int i then ?g r else 0) good) +
        sum_list (map (\<lambda>r. if f r + (i0 + 1) \<le> int i \<and> int i < f r + (i0 + 1) + int n
                          then dts ! i else 0) good) =
        sum_list (map (\<lambda>r. if f r + i0 \<le> int i \<and> int i < f r + i0 + int (Suc n)
                          then dts ! i else 0) good)"
    unfolding sum_list_addf [symmetric]
    by (intro arg_cong [where f = sum_list] map_cong) auto
  with la1(3,4) la'(3,4) have "la ! i \<le> la' ! i"
    "la' ! i \<le> la ! i +
       sum_list (map (\<lambda>r. if f r + i0 \<le> int i \<and> int i < f r + i0 + int (Suc n)
                          then dts ! i else 0) good)"
    by simp_all
  with run la'(2) la1(2) show ?case by (intro Suc.prems(1) [of la']) simp_all
qed

lemma sum_list_filter_if:
  "sum_list (map h (filter P xs)) = sum_list (map (\<lambda>x. if P x then h x else (0::real)) xs)"
  by (induction xs) auto

text \<open>One pass of the loop over \<^verbatim>\<open>bin_diff\<close>, for rows whose livetime starts at or
  after the first edge: it returns, no bin goes down, and bin \<open>i\<close> goes up by at most
  the end part, the start part and the whole widths that the rows of this pass
  bring to it.\<close>

lemma span_pass_bound:
  assumes ts: "sorted ts" "length ts = N" and la: "length la = N"
    and dts: "length dts = N" "\<forall>j < N. 0 \<le> dts ! j"
    and k: "0 < k" and rows: "\<forall>r \<in> set rows. 0 \<le> lts_bin ts r" and i: "i < N"
  obtains la' where "span_pass dts ts rows k la = Inr la'" "length la' = N" "la ! i \<le> la' ! i"
    "la' ! i \<le> la ! i + sum_list (map (\<lambda>r.
        if ev_bin ts r = lts_bin ts r + int k then
          (if ev_bin ts r = int i then ev_fl r - ts ! i else 0) +
          (if lts_bin ts r = int i then ts ! Suc i - livetime_starts r else 0) +
          (if lts_bin ts r < int i \<and> int i < ev_bin ts r then dts ! i else 0)
        else 0) rows)"
proof -
  let ?good = "filter (\<lambda>r. ev_bin ts r = lts_bin ts r + int k) rows"
  let ?g1 = "\<lambda>r. ev_fl r - ts ! nat (ev_bin ts r)"
  let ?g2 = "\<lambda>r. ts ! nat (lts_bin ts r + 1) - livetime_starts r"
  have evN: "ev_bin ts r < int N" for r
    using searchsorted_right_range(2) [of ts "ev_fl r"] ts(2) by (simp add: ev_bin_def)
  have good: "0 \<le> lts_bin ts r" "ev_bin ts r = lts_bin ts r + int k" "lts_bin ts r + int k < int N"
    if "r \<in> set ?good" for r
    using that rows evN [of r] by auto
  \<comment> \<open>the end bins\<close>
  have e_idx: "map (\<lambda>x. searchsorted_right ts x - 1) (map ev_fl ?good) = map (ev_bin ts) ?good"
    by (simp add: ev_bin_def)
  have v1: "\<forall>r \<in> set ?good. 0 \<le> ev_bin ts r \<and> nat (ev_bin ts r) < length la"
  proof
    fix r assume "r \<in> set ?good"
    from good [OF this] la show "0 \<le> ev_bin ts r \<and> nat (ev_bin ts r) < length la"
      by linarith
  qed
  have v1': "\<forall>j \<in> set (map (ev_bin ts) ?good). 0 \<le> j \<and> nat j < length ts"
  proof -
    have "0 \<le> ev_bin ts r \<and> nat (ev_bin ts r) < length ts" if "r \<in> set ?good" for r
      using good [OF that] ts(2) by linarith
    then show ?thesis unfolding set_map by blast
  qed
  have t1: "take_idx ts (map (ev_bin ts) ?good) = Inr (map (\<lambda>r. ts ! nat (ev_bin ts r)) ?good)"
    using take_idx_valid [OF v1'] by (simp only: map_map comp_def)
  have d1: "map2 (-) (map ev_fl ?good) (map (\<lambda>r. ts ! nat (ev_bin ts r)) ?good) = map ?g1 ?good"
    by (rule map2_same)
  have g1: "\<forall>r \<in> set ?good. 0 \<le> ?g1 r"
  proof
    fix r assume r: "r \<in> set ?good"
    with v1 have b: "0 \<le> ev_bin ts r" by blast
    then have "int (nat (ev_bin ts r)) < searchsorted_right ts (ev_fl r)"
      by (simp add: ev_bin_def)
    from searchsorted_right_below [OF ts(1) this] show "0 \<le> ?g1 r" by simp
  qed
  obtain la1 where la1: "iadd_at la (map (ev_bin ts) ?good) (map ?g1 ?good) = Inr la1"
    "length la1 = length la" "la ! i \<le> la1 ! i"
    "la1 ! i \<le> la ! i + sum_list (map (\<lambda>r. if ev_bin ts r = int i then ?g1 r else 0) ?good)"
    using iadd_at_rows_bound [OF v1 g1, of i] i la by blast
  have a1: "list_all (\<lambda>d. d \<ge> 0) (map ?g1 ?good)"
    unfolding list_all_iff set_map using g1 by blast
  \<comment> \<open>the start bins\<close>
  have l_idx: "map (searchsorted_right ts) (map livetime_starts ?good) =
      map (\<lambda>r. lts_bin ts r + 1) ?good"
    by (simp add: lts_bin_def)
  have v2': "\<forall>j \<in> set (map (\<lambda>r. lts_bin ts r + 1) ?good). 0 \<le> j \<and> nat j < length ts"
  proof -
    have "0 \<le> lts_bin ts r + 1 \<and> nat (lts_bin ts r + 1) < length ts" if "r \<in> set ?good" for r
      using good [OF that] k ts(2) by linarith
    then show ?thesis unfolding set_map by blast
  qed
  have t2: "take_idx ts (map (\<lambda>r. lts_bin ts r + 1) ?good) =
      Inr (map (\<lambda>r. ts ! nat (lts_bin ts r + 1)) ?good)"
    using take_idx_valid [OF v2'] by (simp only: map_map comp_def)
  have d2: "map2 (-) (map (\<lambda>r. ts ! nat (lts_bin ts r + 1)) ?good) (map livetime_starts ?good) =
      map ?g2 ?good"
    by (rule map2_same)
  have g2: "\<forall>r \<in> set ?good. 0 \<le> ?g2 r"
  proof
    fix r assume r: "r \<in> set ?good"
    from good [OF r] k ts(2) have n: "nat (lts_bin ts r + 1) < length ts" by simp
    have "searchsorted_right ts (livetime_starts r) \<le> int (nat (lts_bin ts r + 1))"
      using good(1) [OF r] by (simp add: lts_bin_def)
    from searchsorted_right_above [OF ts(1) this n] show "0 \<le> ?g2 r" by simp
  qed
  have v2: "\<forall>r \<in> set ?good. 0 \<le> lts_bin ts r \<and> nat (lts_bin ts r) < length la1"
  proof
    fix r assume "r \<in> set ?good"
    from good [OF this] la la1(2) k show "0 \<le> lts_bin ts r \<and> nat (lts_bin ts r) < length la1"
      by linarith
  qed
  obtain la2 where la2: "iadd_at la1 (map (lts_bin ts) ?good) (map ?g2 ?good) = Inr la2"
    "length la2 = length la1" "la1 ! i \<le> la2 ! i"
    "la2 ! i \<le> la1 ! i + sum_list (map (\<lambda>r. if lts_bin ts r = int i then ?g2 r else 0) ?good)"
    using iadd_at_rows_bound [OF v2 g2, of i] i la la1(2) by auto
  have a2: "list_all (\<lambda>d. d \<ge> 0) (map ?g2 ?good)"
    unfolding list_all_iff set_map using g2 by blast
  \<comment> \<open>the whole bins between them\<close>
  have l2: "length la2 = N" using la2(2) la1(2) la by simp
  obtain la3 where la3: "complete_bins dts (map (lts_bin ts) ?good) 1 (k - 1) la2 = Inr la3"
    "length la3 = length la2" "la2 ! i \<le> la3 ! i"
    "la3 ! i \<le> la2 ! i + sum_list (map (\<lambda>r.
        if lts_bin ts r + 1 \<le> int i \<and> int i < lts_bin ts r + 1 + int (k - 1)
        then dts ! i else 0) ?good)"
  proof (rule complete_bins_bound [of ?good "lts_bin ts" 1 "k - 1" la2 dts i])
    show "\<forall>r \<in> set ?good. 0 \<le> lts_bin ts r + 1 \<and>
        lts_bin ts r + 1 + int (k - 1) \<le> int (length la2)"
    proof
      fix r assume "r \<in> set ?good"
      from good [OF this] l2 k show "0 \<le> lts_bin ts r + 1 \<and>
        lts_bin ts r + 1 + int (k - 1) \<le> int (length la2)"
        by linarith
    qed
    show "length dts = length la2" using dts(1) l2 by simp
    show "\<forall>j < length dts. 0 \<le> dts ! j" using dts by simp
    show "i < length la2" using i l2 by simp
  qed blast
  have run: "span_pass dts ts rows k la = Inr la3"
    unfolding span_pass_def Let_def
    by (simp only: e_idx t1 d1 la1(1) a1 l_idx t2 d2 la2(1) a2 la3(1) sum.case not_True_eq_False if_False)
  have "la3 ! i \<le> la ! i +
      (sum_list (map (\<lambda>r. if ev_bin ts r = int i then ?g1 r else 0) ?good) +
       sum_list (map (\<lambda>r. if lts_bin ts r = int i then ?g2 r else 0) ?good) +
       sum_list (map (\<lambda>r. if lts_bin ts r + 1 \<le> int i \<and> int i < lts_bin ts r + 1 + int (k - 1)
                          then dts ! i else 0) ?good))"
    using la1(4) la2(4) la3(4) by simp
  also have "sum_list (map (\<lambda>r. if ev_bin ts r = int i then ?g1 r else 0) ?good) +
       sum_list (map (\<lambda>r. if lts_bin ts r = int i then ?g2 r else 0) ?good) +
       sum_list (map (\<lambda>r. if lts_bin ts r + 1 \<le> int i \<and> int i < lts_bin ts r + 1 + int (k - 1)
                          then dts ! i else 0) ?good) =
     sum_list (map (\<lambda>r. (if ev_bin ts r = int i then ev_fl r - ts ! i else 0) +
          (if lts_bin ts r = int i then ts ! Suc i - livetime_starts r else 0) +
          (if lts_bin ts r < int i \<and> int i < ev_bin ts r then dts ! i else 0)) ?good)"
    unfolding sum_list_addf [symmetric]
  proof (intro arg_cong [where f = sum_list] map_cong refl)
    fix r assume r: "r \<in> set ?good"
    have s: "nat (int i + 1) = Suc i" by simp
    from good [OF r] k show
      "(if ev_bin ts r = int i then ?g1 r else 0) +
       (if lts_bin ts r = int i then ?g2 r else 0) +
       (if lts_bin ts r + 1 \<le> int i \<and> int i < lts_bin ts r + 1 + int (k - 1) then dts ! i else 0) =
       (if ev_bin ts r = int i then ev_fl r - ts ! i else 0) +
       (if lts_bin ts r = int i then ts ! Suc i - livetime_starts r else 0) +
       (if lts_bin ts r < int i \<and> int i < ev_bin ts r then dts ! i else 0)"
      by (auto simp: s)
  qed
  also have "\<dots> = sum_list (map (\<lambda>r.
        if ev_bin ts r = lts_bin ts r + int k then
          (if ev_bin ts r = int i then ev_fl r - ts ! i else 0) +
          (if lts_bin ts r = int i then ts ! Suc i - livetime_starts r else 0) +
          (if lts_bin ts r < int i \<and> int i < ev_bin ts r then dts ! i else 0)
        else 0) rows)"
    by (rule sum_list_filter_if)
  finally have up: "la3 ! i \<le> la ! i + sum_list (map (\<lambda>r.
        if ev_bin ts r = lts_bin ts r + int k then
          (if ev_bin ts r = int i then ev_fl r - ts ! i else 0) +
          (if lts_bin ts r = int i then ts ! Suc i - livetime_starts r else 0) +
          (if lts_bin ts r < int i \<and> int i < ev_bin ts r then dts ! i else 0)
        else 0) rows)" .
  have "la ! i \<le> la3 ! i" using la1(3) la2(3) la3(3) by simp
  with run up l2 la3(2) show thesis by (intro that [of la3]) simp_all
qed

lemma overlap_nonneg: "0 \<le> overlap lo hi r"
  by (simp add: overlap_def)

text \<open>The two bins of a row between the first and the last edge.\<close>

lemma row_bins:
  assumes tb: "sorted tbins" "length tbins = Suc N" "0 < N"
    and r: "tbins ! 0 \<le> livetime_starts r" "tbins ! 0 \<le> ev_fl r"
  shows "\<exists>a b. a < N \<and> lts_bin (butlast tbins) r = int a \<and> tbins ! a \<le> livetime_starts r \<and>
    (\<forall>j. a < j \<longrightarrow> j < N \<longrightarrow> livetime_starts r < tbins ! j) \<and>
    b < N \<and> ev_bin (butlast tbins) r = int b \<and> tbins ! b \<le> ev_fl r \<and>
    (\<forall>j. b < j \<longrightarrow> j < N \<longrightarrow> ev_fl r < tbins ! j)"
proof -
  let ?ts = "butlast tbins"
  let ?lts = "livetime_starts r" and ?ev = "ev_fl r"
  note bl = butlast_edges [OF tb(2)]
  have ts: "sorted ?ts" "?ts \<noteq> []" "hd ?ts = tbins ! 0" "length ?ts = N"
    using bl tb(1,3) by simp_all
  obtain a where a: "a < N" "lts_bin ?ts r = int a" "tbins ! a \<le> ?lts"
    "\<forall>i. a < i \<longrightarrow> i < N \<longrightarrow> ?lts < tbins ! i"
  proof -
    obtain a where "a < length ?ts" "searchsorted_right ?ts ?lts - 1 = int a" "?ts ! a \<le> ?lts"
      "\<And>i. a < i \<Longrightarrow> i < length ?ts \<Longrightarrow> ?lts < ?ts ! i"
      using bin_of_value [OF ts(1,2), of ?lts] ts(3) r(1) by auto
    then show thesis using that [of a] ts(4) bl(2) by (simp add: lts_bin_def)
  qed
  obtain b where b: "b < N" "ev_bin ?ts r = int b" "tbins ! b \<le> ?ev"
    "\<forall>i. b < i \<longrightarrow> i < N \<longrightarrow> ?ev < tbins ! i"
  proof -
    obtain b where "b < length ?ts" "searchsorted_right ?ts ?ev - 1 = int b" "?ts ! b \<le> ?ev"
      "\<And>i. b < i \<Longrightarrow> i < length ?ts \<Longrightarrow> ?ev < ?ts ! i"
      using bin_of_value [OF ts(1,2), of ?ev] ts(3) r(2) by auto
    then show thesis using that [of b] ts(4) bl(2) by (simp add: ev_bin_def)
  qed
  from a b show ?thesis by blast
qed

lemma span_contribution_le_overlap:
  assumes tb: "sorted tbins" "length tbins = Suc N"
    and w: "\<And>j. j < N \<Longrightarrow> dts ! j = tbins ! Suc j - tbins ! j"
    and i: "i < N"
    and r: "tbins ! 0 \<le> livetime_starts r" "ev_fl r \<le> tbins ! N"
    and lt: "lts_bin (butlast tbins) r < ev_bin (butlast tbins) r"
  shows "(if ev_bin (butlast tbins) r = int i then ev_fl r - butlast tbins ! i else 0) +
         (if lts_bin (butlast tbins) r = int i
          then butlast tbins ! Suc i - livetime_starts r else 0) +
         (if lts_bin (butlast tbins) r < int i \<and> int i < ev_bin (butlast tbins) r
          then dts ! i else 0)
         \<le> overlap (tbins ! i) (tbins ! Suc i) r"
proof -
  let ?ts = "butlast tbins"
  let ?lts = "livetime_starts r" and ?ev = "ev_fl r"
  have N: "0 < N" using i by simp
  note bl = butlast_edges [OF tb(2)]
  have mono: "tbins ! x \<le> tbins ! y" if "x \<le> y" "y \<le> N" for x y
    using tb that by (intro sorted_nth_mono) simp_all
  have le: "?lts \<le> ?ev"
    using lt searchsorted_right_mono [of ?ev ?lts ?ts]
    by (cases "?lts \<le> ?ev") (auto simp: lts_bin_def ev_bin_def)
  with r(1) have r0: "tbins ! 0 \<le> ?ev" by simp
  obtain a b where a: "a < N" "lts_bin ?ts r = int a" "tbins ! a \<le> ?lts"
    "\<forall>j. a < j \<longrightarrow> j < N \<longrightarrow> ?lts < tbins ! j"
    and b: "b < N" "ev_bin ?ts r = int b" "tbins ! b \<le> ?ev"
    "\<forall>j. b < j \<longrightarrow> j < N \<longrightarrow> ?ev < tbins ! j"
    using row_bins [OF tb N r(1) r0] by blast
  from lt a(2) b(2) have ab: "a < b" by simp
  have ev_hi: "?ev \<le> tbins ! Suc b"
  proof (cases "Suc b < N")
    case True
    with b(4) [rule_format, of "Suc b"] show ?thesis by simp
  next
    case False
    with b(1) have "Suc b = N" by simp
    with r(2) show ?thesis by simp
  qed
  have lts_a: "?lts < tbins ! Suc a" using a(4) [rule_format, of "Suc a"] ab b(1) by simp
  consider "i = b" | "i = a" | "a < i" "i < b" | "i < a" | "b < i" by linarith
  then show ?thesis
  proof cases
    case 1
    have "tbins ! Suc a \<le> tbins ! b" using ab b(1) by (intro mono) simp_all
    with lts_a have "?lts \<le> tbins ! b" by simp
    with 1 ab a(2) b(2) ev_hi b(3) bl(2) [OF i] show ?thesis
      by (simp add: overlap_def)
  next
    case 2
    have "tbins ! Suc a \<le> tbins ! b" using ab b(1) by (intro mono) simp_all
    with b(3) have "tbins ! Suc a \<le> ?ev" by simp
    moreover have "?ts ! Suc a = tbins ! Suc a" using ab b(1) by (intro bl(2)) simp
    ultimately show ?thesis using 2 ab a(2,3) b(2) lts_a
      by (simp add: overlap_def)
  next
    case 3
    have "tbins ! Suc i \<le> tbins ! b" using 3 b(1) by (intro mono) simp_all
    with b(3) have "tbins ! Suc i \<le> ?ev" by simp
    moreover have "tbins ! Suc a \<le> tbins ! i" using 3 i by (intro mono) simp_all
    with lts_a have "?lts \<le> tbins ! i" by simp
    ultimately show ?thesis using 3 a(2) b(2) w [OF i]
      by (simp add: overlap_def)
  next
    case 4
    with ab a(2) b(2) show ?thesis by (simp add: overlap_nonneg)
  next
    case 5
    with ab a(2) b(2) show ?thesis by (simp add: overlap_nonneg)
  qed
qed

lemma same_bin_contribution_le_overlap:
  assumes tb: "sorted tbins" "length tbins = Suc N" and i: "i < N"
    and r: "tbins ! 0 \<le> livetime_starts r" "ev_fl r \<le> tbins ! N"
      "pr_fl r = ev_fl r - livetime_starts r"
    and eq: "ev_bin (butlast tbins) r = lts_bin (butlast tbins) r"
  shows "(if in_bin tbins i (ev_fl r) then pr_fl r else 0) \<le> overlap (tbins ! i) (tbins ! Suc i) r"
proof (cases "in_bin tbins i (ev_fl r)")
  case False
  then show ?thesis by (simp add: overlap_nonneg)
next
  case True
  let ?ts = "butlast tbins"
  let ?lts = "livetime_starts r" and ?ev = "ev_fl r"
  have N: "0 < N" using i by simp
  have "tbins ! 0 \<le> tbins ! i" using tb i by (intro sorted_nth_mono) simp_all
  with True have r0: "tbins ! 0 \<le> ?ev" by (simp add: in_bin_def)
  obtain a b where a: "a < N" "lts_bin ?ts r = int a" "tbins ! a \<le> ?lts"
    and b: "b < N" "ev_bin ?ts r = int b" "tbins ! b \<le> ?ev"
    "\<forall>j. b < j \<longrightarrow> j < N \<longrightarrow> ?ev < tbins ! j"
    using row_bins [OF tb N r(1) r0] by blast
  from eq a(2) b(2) have ab: "a = b" by simp
  from True in_bin_unique [OF tb b(1,3) b(4) [rule_format] r(2) i] have ib: "i = b" by simp
  from True have "?ev \<le> tbins ! Suc i" by (auto simp: in_bin_def)
  with a(3) ab ib True r(3) show ?thesis by (simp add: overlap_def)
qed

lemma widths_nonneg:
  fixes tbins dts :: "real list"
  assumes "sorted tbins" "length tbins = Suc N" "\<And>j. j < N \<Longrightarrow> dts ! j = tbins ! Suc j - tbins ! j"
  shows "\<forall>j < N. 0 \<le> dts ! j"
proof (intro allI impI)
  fix j assume j: "j < N"
  then have "tbins ! j \<le> tbins ! Suc j" using assms(1,2) by (intro sorted_nth_mono) simp_all
  with assms(3) [OF j] show "0 \<le> dts ! j" by simp
qed

lemma lts_bin_nonneg:
  assumes "length tbins = Suc N" "0 < N" "tbins ! 0 \<le> livetime_starts r"
  shows "0 \<le> lts_bin (butlast tbins) r"
  using searchsorted_right_pos [of "butlast tbins" "livetime_starts r"]
    butlast_edges(4,5) [OF assms(1,2)] assms(3)
  by (simp add: lts_bin_def)

lemma span_loop_bound:
  assumes tb: "sorted tbins" "length tbins = Suc N"
    and la: "length la = N" and dts: "length dts = N"
    and w: "\<And>j. j < N \<Longrightarrow> dts ! j = tbins ! Suc j - tbins ! j"
    and rows: "\<forall>r \<in> set rows. tbins ! 0 \<le> livetime_starts r \<and> ev_fl r \<le> tbins ! N"
    and i: "i < N"
  obtains la' where "span_loop dts (butlast tbins) rows K la = Inr la'" "length la' = N"
    "la ! i \<le> la' ! i"
    "la' ! i \<le> la ! i + sum_list (map (\<lambda>r.
        if lts_bin (butlast tbins) r < ev_bin (butlast tbins) r \<and>
           ev_bin (butlast tbins) r \<le> lts_bin (butlast tbins) r + int K
        then overlap (tbins ! i) (tbins ! Suc i) r else 0) rows)"
  using la
proof (induction K arbitrary: la thesis)
  case 0
  have "\<not> (lts_bin (butlast tbins) r < ev_bin (butlast tbins) r \<and>
           ev_bin (butlast tbins) r \<le> lts_bin (butlast tbins) r + int 0)" for r
    by simp
  then have "sum_list (map (\<lambda>r.
        if lts_bin (butlast tbins) r < ev_bin (butlast tbins) r \<and>
           ev_bin (butlast tbins) r \<le> lts_bin (butlast tbins) r + int 0
        then overlap (tbins ! i) (tbins ! Suc i) r else 0) rows) = 0"
    by (simp only: if_False) simp
  then show ?case using "0.prems"(2) by (intro "0.prems"(1) [of la]) simp_all
next
  case (Suc K)
  let ?ts = "butlast tbins"
  let ?ov = "overlap (tbins ! i) (tbins ! Suc i)"
  have N: "0 < N" using i by simp
  note bl = butlast_edges [OF tb(2)]
  have nn: "\<forall>r \<in> set rows. 0 \<le> lts_bin ?ts r"
    using rows lts_bin_nonneg [OF tb(2) N] by blast
  obtain la1 where la1: "span_pass dts ?ts rows (Suc K) la = Inr la1" "length la1 = N"
    "la ! i \<le> la1 ! i"
    "la1 ! i \<le> la ! i + sum_list (map (\<lambda>r.
        if ev_bin ?ts r = lts_bin ?ts r + int (Suc K) then
          (if ev_bin ?ts r = int i then ev_fl r - ?ts ! i else 0) +
          (if lts_bin ?ts r = int i then ?ts ! Suc i - livetime_starts r else 0) +
          (if lts_bin ?ts r < int i \<and> int i < ev_bin ?ts r then dts ! i else 0)
        else 0) rows)"
    using span_pass_bound [OF bl(3) [OF tb(1)] bl(1) Suc.prems(2) dts
        widths_nonneg [OF tb w] _ nn i, where k = "Suc K"]
    by auto
  have "sum_list (map (\<lambda>r.
        if ev_bin ?ts r = lts_bin ?ts r + int (Suc K) then
          (if ev_bin ?ts r = int i then ev_fl r - ?ts ! i else 0) +
          (if lts_bin ?ts r = int i then ?ts ! Suc i - livetime_starts r else 0) +
          (if lts_bin ?ts r < int i \<and> int i < ev_bin ?ts r then dts ! i else 0)
        else 0) rows)
      \<le> sum_list (map (\<lambda>r. if ev_bin ?ts r = lts_bin ?ts r + int (Suc K) then ?ov r else 0) rows)"
  proof (rule sum_list_mono)
    fix r assume r: "r \<in> set rows"
    show "(if ev_bin ?ts r = lts_bin ?ts r + int (Suc K) then
          (if ev_bin ?ts r = int i then ev_fl r - ?ts ! i else 0) +
          (if lts_bin ?ts r = int i then ?ts ! Suc i - livetime_starts r else 0) +
          (if lts_bin ?ts r < int i \<and> int i < ev_bin ?ts r then dts ! i else 0)
        else 0) \<le> (if ev_bin ?ts r = lts_bin ?ts r + int (Suc K) then ?ov r else 0)"
    proof (cases "ev_bin ?ts r = lts_bin ?ts r + int (Suc K)")
      case True
      then have "lts_bin ?ts r < ev_bin ?ts r" by simp
      from span_contribution_le_overlap [OF tb w i _ _ this] rows r True
      show ?thesis by simp
    next
      case False
      then show ?thesis by simp
    qed
  qed
  with la1(4) have up1: "la1 ! i \<le> la ! i +
      sum_list (map (\<lambda>r. if ev_bin ?ts r = lts_bin ?ts r + int (Suc K) then ?ov r else 0) rows)"
    by simp
  obtain la' where la': "span_loop dts ?ts rows K la1 = Inr la'" "length la' = N"
    "la1 ! i \<le> la' ! i"
    "la' ! i \<le> la1 ! i + sum_list (map (\<lambda>r.
        if lts_bin ?ts r < ev_bin ?ts r \<and> ev_bin ?ts r \<le> lts_bin ?ts r + int K
        then ?ov r else 0) rows)"
    using Suc.IH [OF _ la1(2)] by blast
  have "sum_list (map (\<lambda>r. if ev_bin ?ts r = lts_bin ?ts r + int (Suc K) then ?ov r else 0) rows) +
        sum_list (map (\<lambda>r. if lts_bin ?ts r < ev_bin ?ts r \<and> ev_bin ?ts r \<le> lts_bin ?ts r + int K
                          then ?ov r else 0) rows) =
        sum_list (map (\<lambda>r. if lts_bin ?ts r < ev_bin ?ts r \<and>
                              ev_bin ?ts r \<le> lts_bin ?ts r + int (Suc K)
                          then ?ov r else 0) rows)"
    unfolding sum_list_addf [symmetric]
    by (intro arg_cong [where f = sum_list] map_cong) auto
  with up1 la'(4) have "la' ! i \<le> la ! i +
        sum_list (map (\<lambda>r. if lts_bin ?ts r < ev_bin ?ts r \<and>
                              ev_bin ?ts r \<le> lts_bin ?ts r + int (Suc K)
                          then ?ov r else 0) rows)"
    by simp
  moreover have "la ! i \<le> la' ! i" using la1(3) la'(3) by simp
  moreover have "span_loop dts ?ts rows (Suc K) la = Inr la'" using la1(1) la'(1) by simp
  ultimately show ?case using la'(2) by (intro Suc.prems(1) [of la']) simp_all
qed

lemma separated_overlap_sum:
  assumes "sorted_wrt (\<lambda>r s. ev_fl r \<le> livetime_starts s) rows"
    "\<forall>r \<in> set rows. x \<le> livetime_starts r" "lo \<le> hi"
  shows "sum_list (map (overlap lo hi) rows) \<le> max 0 (hi - max lo x)"
  using assms
proof (induction rows arbitrary: x)
  case Nil
  then show ?case by simp
next
  case (Cons r rs)
  have "sum_list (map (overlap lo hi) rs) \<le> max 0 (hi - max lo (max x (ev_fl r)))"
    using Cons.prems by (intro Cons.IH) auto
  moreover have "overlap lo hi r + max 0 (hi - max lo (max x (ev_fl r))) \<le> max 0 (hi - max lo x)"
    using Cons.prems(2,3) by (auto simp: overlap_def max_def min_def)
  ultimately show ?case by simp
qed

text \<open>The binning of rows that lie between the first and the last edge: it returns,
  and bin \<open>i\<close> holds at least the negative priors and at most the total length of
  the parts of the livetime intervals inside the bin.\<close>

lemma bin_rows_bound:
  assumes tb: "sorted tbins" "length tbins = Suc N"
    and len: "length tms = N" "length dts = N"
    and w: "\<And>j. j < N \<Longrightarrow> dts ! j = tbins ! Suc j - tbins ! j"
    and ne: "rows \<noteq> []"
    and rows: "\<forall>r \<in> set rows. tbins ! 0 \<le> livetime_starts r \<and> ev_fl r \<le> tbins ! N \<and>
                 pr_fl r = ev_fl r - livetime_starts r"
    and i: "i < N"
  obtains la where "bin_rows tms dts tbins rows = Inr la" "length la = N"
    "sum_list (map (\<lambda>r. min (pr_fl r) 0) rows) \<le> la ! i"
    "la ! i \<le> sum_list (map (overlap (tbins ! i) (tbins ! Suc i)) rows)"
proof -
  let ?ts = "butlast tbins"
  let ?ov = "overlap (tbins ! i) (tbins ! Suc i)"
  let ?same = "filter (\<lambda>r. ev_bin ?ts r = lts_bin ?ts r) rows"
  let ?hist = "map (\<lambda>i. sum_list (map (\<lambda>r. if in_bin tbins i (ev_fl r) then pr_fl r else 0) ?same))
                 [0..<length tbins - 1]"
  have fp: "first_pass tbins rows = Inr ?hist" by (rule first_pass_rows [OF tb(1)])
  have lh: "length ?hist = N" using tb(2) by simp
  have ia: "iadd_array (replicate (length tms) 0) ?hist = Inr ?hist"
    using len(1) lh by (intro iadd_array_zeros) simp
  obtain m where mx: "max_bin_diff ?ts rows = Inr m"
    using ne by (simp add: max_bin_diff_def)
  have rows': "\<forall>r \<in> set rows. tbins ! 0 \<le> livetime_starts r \<and> ev_fl r \<le> tbins ! N"
    using rows by blast
  obtain la where la: "span_loop dts ?ts rows (nat m) ?hist = Inr la" "length la = N"
    "?hist ! i \<le> la ! i"
    "la ! i \<le> ?hist ! i + sum_list (map (\<lambda>r.
        if lts_bin ?ts r < ev_bin ?ts r \<and> ev_bin ?ts r \<le> lts_bin ?ts r + int (nat m)
        then ?ov r else 0) rows)"
    using span_loop_bound [OF tb lh len(2) w rows' i, where K = "nat m"] by blast
  have run: "bin_rows tms dts tbins rows = Inr la"
    by (simp only: bin_rows_def fp ia mx la(1) sum.case)
  have hi: "?hist ! i = sum_list (map (\<lambda>r. if ev_bin ?ts r = lts_bin ?ts r
        then (if in_bin tbins i (ev_fl r) then pr_fl r else 0) else 0) rows)"
  proof -
    have "[0..<length tbins - 1] ! i = i" "i < length [0..<length tbins - 1]"
      using i tb(2) by simp_all
    then show ?thesis by (simp only: nth_map sum_list_filter_if)
  qed
  have "?hist ! i \<le> sum_list (map (\<lambda>r. if ev_bin ?ts r = lts_bin ?ts r then ?ov r else 0) rows)"
    unfolding hi
  proof (rule sum_list_mono)
    fix r assume r: "r \<in> set rows"
    show "(if ev_bin ?ts r = lts_bin ?ts r
        then (if in_bin tbins i (ev_fl r) then pr_fl r else 0) else 0)
        \<le> (if ev_bin ?ts r = lts_bin ?ts r then ?ov r else 0)"
    proof (cases "ev_bin ?ts r = lts_bin ?ts r")
      case True
      from same_bin_contribution_le_overlap [OF tb i _ _ _ True] rows r True
      show ?thesis by simp
    next
      case False
      then show ?thesis by simp
    qed
  qed
  with la(4) have "la ! i \<le>
      sum_list (map (\<lambda>r. if ev_bin ?ts r = lts_bin ?ts r then ?ov r else 0) rows) +
      sum_list (map (\<lambda>r.
        if lts_bin ?ts r < ev_bin ?ts r \<and> ev_bin ?ts r \<le> lts_bin ?ts r + int (nat m)
        then ?ov r else 0) rows)"
    by simp
  also have "\<dots> \<le> sum_list (map ?ov rows)"
    unfolding sum_list_addf [symmetric]
    by (rule sum_list_mono) (simp add: overlap_nonneg)
  finally have up: "la ! i \<le> sum_list (map ?ov rows)" .
  have "sum_list (map (\<lambda>r. min (pr_fl r) 0) rows) \<le> ?hist ! i"
    unfolding hi by (rule sum_list_mono) simp
  with la(3) have lo: "sum_list (map (\<lambda>r. min (pr_fl r) 0) rows) \<le> la ! i" by simp
  from run la(2) lo up show thesis by (rule that)
qed

lemma normalized_row:
  assumes ax: "hd tbins + eps < last tbins" and ir: "in_range tbins r"
    and pr: "pr_fl r = ev_fl r - livetime_starts r"
  shows "pr_fl (clamp_end tbins (clamp_start tbins r)) =
           ev_fl (clamp_end tbins (clamp_start tbins r)) -
           livetime_starts (clamp_end tbins (clamp_start tbins r))"
    and "hd tbins \<le> livetime_starts (clamp_end tbins (clamp_start tbins r))"
    and "ev_fl (clamp_end tbins (clamp_start tbins r)) \<le> last tbins"
    and "livetime_starts r \<le> livetime_starts (clamp_end tbins (clamp_start tbins r))"
    and "ev_fl (clamp_end tbins (clamp_start tbins r)) \<le> ev_fl r"
    and "0 \<le> pr_fl r \<Longrightarrow>
           - eps * ((if livetime_starts r < hd tbins then 1 else 0) +
                    (if last tbins < ev_fl r then 1 else 0))
           \<le> min (pr_fl (clamp_end tbins (clamp_start tbins r))) 0"
  using assms eps_pos
  by (auto simp: clamp_end_def clamp_start_def in_range_def)

lemma at_most_one:
  assumes "sorted_wrt R xs"
    and "\<And>x y. x \<in> set xs \<Longrightarrow> y \<in> set xs \<Longrightarrow> P x \<Longrightarrow> P y \<Longrightarrow> R x y \<Longrightarrow> False"
  shows "sum_list (map (\<lambda>x. if P x then 1 else 0) xs) \<le> (1::real)"
  using assms
proof (induction xs)
  case Nil
  then show ?case by simp
next
  case (Cons x xs)
  show ?case
  proof (cases "P x")
    case True
    have "\<not> P y" if "y \<in> set xs" for y
    proof
      assume "P y"
      moreover from Cons.prems(1) that have "R x y" by simp
      ultimately show False using Cons.prems(2) [of x y] True that by simp
    qed
    then have "map (\<lambda>x. if P x then 1 else (0::real)) xs = map (\<lambda>x. 0) xs" by simp
    then have "sum_list (map (\<lambda>x. if P x then 1 else (0::real)) xs) = 0"
      by (simp only: sum_list_0)
    with True show ?thesis by simp
  next
    case False
    have "sum_list (map (\<lambda>x. if P x then 1 else 0) xs) \<le> (1::real)"
      using Cons.prems by (intro Cons.IH) auto
    with False show ?thesis by simp
  qed
qed

lemma shift_rows_separated:
  assumes "length events = length priors"
    and "\<forall>j k. j < k \<and> k < length events \<longrightarrow> events ! j \<le> events ! k - priors ! k"
  shows "sorted_wrt (\<lambda>r s. ev_fl r \<le> livetime_starts s) (shift_rows e0 events priors)"
  unfolding sorted_wrt_iff_nth_less
proof (intro allI impI)
  fix j k assume jk: "j < k" "k < length (shift_rows e0 events priors)"
  then have k: "k < length events" using assms(1) by (simp add: shift_rows_length)
  with jk assms have "events ! j \<le> events ! k - priors ! k" by blast
  then show "ev_fl (shift_rows e0 events priors ! j) \<le>
      livetime_starts (shift_rows e0 events priors ! k)"
    using jk k assms(1) by (simp add: shift_rows_nth)
qed

text \<open>
  C3 (as amended). Take a contiguous axis with non-negative widths, longer than
  \<open>1e-9\<close>, events and priors of equal length with non-negative priors, and livetime
  intervals that do not overlap: no event lies after the livetime start of a later
  event (the events are then ascending). If the call returns an array, every bin
  \<open>i\<close> of it satisfies \<open>-2e-9 \<le> livetime[i] \<le> dt[i]\<close>; and \<open>0 \<le> livetime[i]\<close> when
  every livetime interval lies between the first and the last edge, so that nothing
  is clamped.
\<close>

theorem livetime_bounds:
  assumes dts: "resolve_dt tms dt = Some dts" "length dts = length tms" "tms \<noteq> []"
    and nonneg: "\<forall>i < length tms. 0 \<le> dts ! i"
    and contig: "\<forall>i. Suc i < length tms \<longrightarrow> tms ! i + dts ! i / 2 = tms ! Suc i - dts ! Suc i / 2"
    and axis: "hd tms - hd dts / 2 + eps < last tms + last dts / 2"
    and len: "length events = length priors"
    and pri: "\<forall>p \<in> set priors. 0 \<le> p"
    and sep: "\<forall>j k. j < k \<and> k < length events \<longrightarrow> events ! j \<le> events ! k - priors ! k"
    and run: "get_livetime_per_bin tms events priors dt gti = Inr la"
    and i: "i < length tms"
  shows "- (2 * eps) \<le> la ! i \<and> la ! i \<le> dts ! i \<and>
    ((\<forall>j < length events. hd tms - hd dts / 2 \<le> events ! j - priors ! j \<and>
                            events ! j \<le> last tms + last dts / 2) \<longrightarrow> 0 \<le> la ! i)"
proof -
  let ?N = "length tms"
  let ?e0 = "hd events"
  have N: "0 < ?N" using dts(3) by simp
  have dn: "dts \<noteq> []" using dts(2,3) by auto
  from run len have ev: "events \<noteq> []"
    by (auto simp: get_livetime_per_bin_stages)
  obtain tbins where tb: "make_tbins tms dts ?e0 = Inr tbins" "length tbins = Suc ?N"
    "\<And>i. i < ?N \<Longrightarrow> tbins ! i = tms ! i - dts ! i / 2 - ?e0"
    "\<And>i. i < ?N \<Longrightarrow> tbins ! Suc i = tms ! i + dts ! i / 2 - ?e0"
    "hd tbins = tbins ! 0" "last tbins = tbins ! ?N"
    using make_tbins_contiguous [OF dts(2,3) contig, where ?e0.0 = ?e0] by blast
  have first: "tbins ! 0 = hd tms - hd dts / 2 - ?e0"
    using tb(3) [of 0] N dts(3) dn by (simp add: hd_conv_nth)
  have lastN: "tbins ! ?N = last tms + last dts / 2 - ?e0"
    using tb(4) [of "?N - 1"] N dts(2,3) dn by (simp add: last_conv_nth)
  have w: "dts ! j = tbins ! Suc j - tbins ! j" if "j < ?N" for j
    using tb(3,4) [OF that] by simp
  have sorted: "sorted tbins"
    unfolding sorted_iff_nth_Suc
  proof (intro allI impI)
    fix j assume "Suc j < length tbins"
    then have j: "j < ?N" using tb(2) by simp
    with w [OF j] nonneg [rule_format, OF j] show "tbins ! j \<le> tbins ! Suc j" by simp
  qed
  have ax: "hd tbins + eps < last tbins" using axis first lastN tb(5,6) by simp
  let ?rows0 = "shift_rows ?e0 events priors"
  let ?F = "filter (in_range tbins) ?rows0"
  let ?norm = "clamp_end tbins \<circ> clamp_start tbins"
  let ?R = "normalize_rows tbins ?rows0"
  have R: "?R = map ?norm ?F" by (simp add: normalize_rows_def)
  have eq: "get_livetime_per_bin tms events priors dt gti = bin_rows tms dts tbins ?R"
    using len ev dts(1) tb(1) by (simp add: get_livetime_per_bin_stages)
  with run have br: "bin_rows tms dts tbins ?R = Inr la" by simp
  then have Rne: "?R \<noteq> []" using bin_rows_no_rows [of tms dts tbins] by auto
  \<comment> \<open>the rows before the filter\<close>
  have rows0: "pr_fl r = ev_fl r - livetime_starts r \<and> 0 \<le> pr_fl r" if "r \<in> set ?rows0" for r
  proof -
    from shift_rows_set [OF that] obtain e p where
      "(e, p) \<in> set (zip events priors)" "ev_fl r = e - ?e0" "livetime_starts r = e - ?e0 - p"
      "pr_fl r = p" by blast
    moreover from this(1) have "p \<in> set priors" by (rule set_zip_rightD)
    ultimately show ?thesis using pri by simp
  qed
  have sep0: "sorted_wrt (\<lambda>r s. ev_fl r \<le> livetime_starts s) ?rows0"
    by (rule shift_rows_separated [OF len sep])
  then have sepF: "sorted_wrt (\<lambda>r s. ev_fl r \<le> livetime_starts s) ?F"
    by (rule sorted_wrt_filter)
  have F: "in_range tbins r \<and> pr_fl r = ev_fl r - livetime_starts r \<and> 0 \<le> pr_fl r"
    if "r \<in> set ?F" for r
    using that rows0 [of r] by simp
  note nr = normalized_row [OF ax]
  \<comment> \<open>the rows after the clamping\<close>
  have Rprops: "\<forall>r \<in> set ?R. tbins ! 0 \<le> livetime_starts r \<and> ev_fl r \<le> tbins ! ?N \<and>
                 pr_fl r = ev_fl r - livetime_starts r"
    unfolding R set_map
  proof (intro ballI)
    fix r assume "r \<in> ?norm ` set ?F"
    then obtain r0 where r0: "r0 \<in> set ?F" "r = ?norm r0" by blast
    from F [OF r0(1)] have "in_range tbins r0" "pr_fl r0 = ev_fl r0 - livetime_starts r0"
      by simp_all
    from nr(1,2,3) [OF this] r0(2) tb(5,6)
    show "tbins ! 0 \<le> livetime_starts r \<and> ev_fl r \<le> tbins ! ?N \<and>
                 pr_fl r = ev_fl r - livetime_starts r"
      by simp
  qed
  have sepR: "sorted_wrt (\<lambda>r s. ev_fl r \<le> livetime_starts s) ?R"
    unfolding R sorted_wrt_map
  proof (rule sorted_wrt_mono_rel [OF _ sepF])
    fix r s assume rs: "r \<in> set ?F" "s \<in> set ?F" "ev_fl r \<le> livetime_starts s"
    have "ev_fl (?norm r) \<le> ev_fl r"
      using nr(5) [of r] F [OF rs(1)] by simp
    moreover have "livetime_starts s \<le> livetime_starts (?norm s)"
      using nr(4) [of s] F [OF rs(2)] by simp
    ultimately show "ev_fl (?norm r) \<le> livetime_starts (?norm s)" using rs(3) by simp
  qed
  \<comment> \<open>the bounds of the binning\<close>
  obtain la' where la': "bin_rows tms dts tbins ?R = Inr la'"
    "sum_list (map (\<lambda>r. min (pr_fl r) 0) ?R) \<le> la' ! i"
    "la' ! i \<le> sum_list (map (overlap (tbins ! i) (tbins ! Suc i)) ?R)"
    using bin_rows_bound [OF sorted tb(2) refl dts(2) w Rne Rprops i] by blast
  with br have la_eq: "la' = la" by simp
  \<comment> \<open>above\<close>
  have lohi: "tbins ! i \<le> tbins ! Suc i" using w [OF i] nonneg [rule_format, OF i] by simp
  have lo0: "tbins ! 0 \<le> tbins ! i" using sorted i tb(2) by (intro sorted_nth_mono) simp_all
  have "sum_list (map (overlap (tbins ! i) (tbins ! Suc i)) ?R)
        \<le> max 0 (tbins ! Suc i - max (tbins ! i) (tbins ! 0))"
    using Rprops by (intro separated_overlap_sum [OF sepR _ lohi]) blast
  also have "\<dots> = dts ! i" using lohi lo0 w [OF i] by simp
  finally have up: "la ! i \<le> dts ! i" using la'(3) la_eq by simp
  \<comment> \<open>below\<close>
  let ?sc = "\<lambda>r. livetime_starts r < hd tbins" and ?ec = "\<lambda>r. last tbins < ev_fl r"
  have negs: "sum_list (map (\<lambda>r. - eps * ((if ?sc r then 1 else 0) + (if ?ec r then 1 else 0))) ?F)
        \<le> sum_list (map (\<lambda>r. min (pr_fl r) 0) ?R)"
    unfolding R map_map comp_def
  proof (rule sum_list_mono)
    fix r assume "r \<in> set ?F"
    from F [OF this] nr(6) [of r]
    show "- eps * ((if ?sc r then 1 else 0) + (if ?ec r then 1 else 0))
          \<le> min (pr_fl (clamp_end tbins (clamp_start tbins r))) 0"
      by simp
  qed
  have one_sc: "sum_list (map (\<lambda>r. if ?sc r then 1 else 0) ?F) \<le> (1::real)"
  proof (rule at_most_one [OF sepF])
    fix r s assume "r \<in> set ?F" "?sc s" "ev_fl r \<le> livetime_starts s"
    then show False by (simp add: in_range_def)
  qed
  have one_ec: "sum_list (map (\<lambda>r. if ?ec r then 1 else 0) ?F) \<le> (1::real)"
  proof (rule at_most_one [OF sepF])
    fix r s assume "s \<in> set ?F" "?ec r" "ev_fl r \<le> livetime_starts s"
    then show False by (simp add: in_range_def)
  qed
  have "sum_list (map (\<lambda>r. - eps * ((if ?sc r then 1 else 0) + (if ?ec r then 1 else 0))) ?F) =
        - eps * (sum_list (map (\<lambda>r. if ?sc r then 1 else 0) ?F) +
                 sum_list (map (\<lambda>r. if ?ec r then 1 else 0) ?F))"
    by (simp only: sum_list_const_mult sum_list_addf)
  also have "\<dots> \<ge> - eps * 2"
    using one_sc one_ec eps_pos by (simp add: mult_left_mono)
  finally have "- (2 * eps) \<le> sum_list (map (\<lambda>r. min (pr_fl r) 0) ?R)"
    using negs by simp
  with la'(2) la_eq have low: "- (2 * eps) \<le> la ! i" by simp
  \<comment> \<open>no clamping\<close>
  have zero: "0 \<le> la ! i"
    if inside: "\<forall>j < length events. hd tms - hd dts / 2 \<le> events ! j - priors ! j \<and>
                            events ! j \<le> last tms + last dts / 2"
  proof -
    have "\<not> ?sc r \<and> \<not> ?ec r" if "r \<in> set ?rows0" for r
    proof -
      from that obtain j where j: "j < length ?rows0" "r = ?rows0 ! j"
        by (auto simp: in_set_conv_nth)
      then have jl: "j < length events" using len by (simp add: shift_rows_length)
      with inside have "hd tms - hd dts / 2 \<le> events ! j - priors ! j"
        "events ! j \<le> last tms + last dts / 2" by simp_all
      then show ?thesis
        using j(2) jl len first lastN tb(5,6) by (simp add: shift_rows_nth)
    qed
    then have "map (\<lambda>r. - eps * ((if ?sc r then 1 else 0) + (if ?ec r then 1 else 0))) ?F =
        map (\<lambda>r. 0) ?F"
      by (intro map_cong refl) simp
    then have "sum_list (map (\<lambda>r. - eps * ((if ?sc r then 1 else 0) + (if ?ec r then 1 else 0))) ?F)
        = 0"
      by (simp only: sum_list_0)
    with negs la'(2) la_eq show ?thesis by simp
  qed
  from low up zero show ?thesis by blast
qed

text \<open>An instance with three bins of width one, with the livetime intervals
  from 0.1 to 0.4 and from 0.7 to 2.2.\<close>

theorem livetime_bounds_witness:
  "get_livetime_per_bin [0.5, 1.5, 2.5] [0.4, 2.2] [0.3, 1.5] (DtScalar 1) None = Inr [0.6, 1, 0.2] \<and>
   - (2 * eps) \<le> [0.6, 1, 0.2 :: real] ! 0 \<and> [0.6, 1, 0.2 :: real] ! 0 \<le> [1, 1, 1 :: real] ! 0 \<and>
   0 \<le> [0.6, 1, 0.2 :: real] ! 0"
proof -
  let ?tms = "[0.5, 1.5, 2.5 :: real]" and ?dts = "[1, 1, 1 :: real]"
  let ?ev = "[0.4, 2.2 :: real]" and ?pr = "[0.3, 1.5 :: real]"
  have d: "resolve_dt ?tms (DtScalar 1) = Some ?dts" by (simp add: resolve_dt_def numeral_nat)
  have l: "length ?dts = length ?tms" "?tms \<noteq> []" by simp_all
  have nn: "\<forall>i < length ?tms. 0 \<le> ?dts ! i"
    by (simp add: less_Suc_eq numeral_nat all_conj_distrib)
  have c: "\<forall>i. Suc i < length ?tms \<longrightarrow> ?tms ! i + ?dts ! i / 2 = ?tms ! Suc i - ?dts ! Suc i / 2"
    by (simp add: less_Suc_eq numeral_nat all_conj_distrib)
  have ax: "hd ?tms - hd ?dts / 2 + eps < last ?tms + last ?dts / 2" by (simp add: eps_def)
  have len: "length ?ev = length ?pr" by simp
  have pri: "\<forall>p \<in> set ?pr. 0 \<le> p" by simp
  have sep: "\<forall>j k. j < k \<and> k < length ?ev \<longrightarrow> ?ev ! j \<le> ?ev ! k - ?pr ! k"
    by (auto simp: less_Suc_eq numeral_nat)
  have run: "get_livetime_per_bin ?tms ?ev ?pr (DtScalar 1) None = Inr [0.6, 1, 0.2]"
    by (simp add: run_defs numeral_nat)
  have i: "0 < length ?tms" by simp
  have ins: "\<forall>j < length ?ev. hd ?tms - hd ?dts / 2 \<le> ?ev ! j - ?pr ! j \<and>
      ?ev ! j \<le> last ?tms + last ?dts / 2"
    by (simp add: less_Suc_eq numeral_nat all_conj_distrib)
  from livetime_bounds [OF d l nn c ax len pri sep run i] ins run show ?thesis by blast
qed

text \<open>
  C3 as stated fails: equal lengths, non-negative priors and ascending times and
  events do not keep a bin below its width. Two events at 0.95 and 0.96 with prior
  0.9 each put 1.8 into a bin of width 1.
\<close>

theorem overlapping_priors_exceed_width:
  "length [0.95, 0.96 :: real] = length [0.9, 0.9 :: real] \<and> (0::real) \<le> 0.9 \<and>
   sorted [0.5, 1.5 :: real] \<and> sorted [0.95, 0.96 :: real] \<and>
   get_livetime_per_bin [0.5, 1.5] [0.95, 0.96] [0.9, 0.9] (DtScalar 1) None = Inr [1.8, 0] \<and>
   \<not> [1.8, 0 :: real] ! 0 \<le> 1 + 2 * eps"
  by (simp add: run_defs numeral_nat)

subsection \<open>Exposure correction\<close>

text \<open>
  C8. Where the light curve and \<^verbatim>\<open>dt\<close> fit the time axis, \<^verbatim>\<open>correct_lightcurve\<close>
  writes for every bin: zero if the livetime is below \<^verbatim>\<open>expo_limit\<close>, and otherwise
  the quotient \<^verbatim>\<open>lc / expo * dt\<close> of that bin, which is not a finite number when the
  livetime is zero (possible only for a limit that is not positive). The livetime
  array itself is passed on unchanged.
\<close>

theorem exposure_correction:
  assumes expo: "get_exposure_from_uf tms events priors dt gti = Inr expo"
    and lc: "length lc = length tms"
    and dt: "(\<exists>d. dt = DtScalar d) \<or> (\<exists>ds. dt = DtArray ds \<and> length ds = length tms)"
  shows "\<exists>newlc.
     correct_lightcurve tms lc dt gti events priors expo_limit = Inr (newlc, expo) \<and>
     length newlc = length tms \<and> length expo = length tms \<and>
     (\<forall>i < length tms.
        newlc ! i =
          (if expo ! i < expo_limit then Some 0
           else if expo ! i = 0 then None
           else Some (lc ! i / expo ! i * (case dt of DtScalar d \<Rightarrow> d | DtArray ds \<Rightarrow> ds ! i))))"
proof -
  from expo have le: "length expo = length tms"
    by (auto simp: get_exposure_from_uf_def dest: get_livetime_per_bin_length)
  have q: "broadcast2 fdiv lc expo = Inr (map2 fdiv lc expo)"
    using le lc by (simp add: broadcast2_def)
  from dt show ?thesis
  proof (elim disjE exE conjE)
    fix d assume d: "dt = DtScalar d"
    let ?new = "map2 (\<lambda>v x. if x < expo_limit then Some 0 else v)
                  (map (\<lambda>q. fmul q d) (map2 fdiv lc expo)) expo"
    have "correct_lightcurve tms lc dt gti events priors expo_limit = Inr (?new, expo)"
      using expo q le lc d by (simp add: correct_lightcurve_def)
    moreover have "length ?new = length tms" using le lc by simp
    moreover have "\<forall>i < length tms. ?new ! i =
          (if expo ! i < expo_limit then Some 0
           else if expo ! i = 0 then None
           else Some (lc ! i / expo ! i * d))"
      using le lc by (simp add: fdiv_def fmul_def)
    ultimately show ?thesis using le d by simp
  next
    fix ds assume d: "dt = DtArray ds" and lds: "length ds = length tms"
    let ?new = "map2 (\<lambda>v x. if x < expo_limit then Some 0 else v)
                  (map2 fmul (map2 fdiv lc expo) ds) expo"
    have "correct_lightcurve tms lc dt gti events priors expo_limit = Inr (?new, expo)"
      using expo q le lc d lds by (simp add: correct_lightcurve_def broadcast2_def)
    moreover have "length ?new = length tms" using le lc lds by simp
    moreover have "\<forall>i < length tms. ?new ! i =
          (if expo ! i < expo_limit then Some 0
           else if expo ! i = 0 then None
           else Some (lc ! i / expo ! i * ds ! i))"
      using le lc lds by (simp add: fdiv_def fmul_def)
    ultimately show ?thesis using le d by simp
  qed
qed

text \<open>An instance with the livetimes 0.3, 1, 0.2 and the limit 0.25.\<close>

theorem exposure_correction_witness:
  "correct_lightcurve [0.5, 1.5, 2.5] [3, 4, 5] (DtScalar 1) None [2.2] [1.5] 0.25 =
     Inr ([Some 10, Some 4, Some 0], [0.3, 1, 0.2])"
proof -
  have e: "get_exposure_from_uf [0.5, 1.5, 2.5] [2.2] [1.5] (DtScalar 1) None = Inr [0.3, 1, 0.2]"
    by (simp add: get_exposure_from_uf_def run_defs numeral_nat)
  have l: "length [3, 4, 5 :: real] = length [0.5, 1.5, 2.5 :: real]" by simp
  have d: "(\<exists>d. DtScalar 1 = DtScalar d) \<or>
     (\<exists>ds. DtScalar 1 = DtArray ds \<and> length ds = length [0.5, 1.5, 2.5 :: real])" by simp
  from exposure_correction [OF e l d, of "0.25"] obtain newlc where
    n: "correct_lightcurve [0.5, 1.5, 2.5] [3, 4, 5] (DtScalar 1) None [2.2] [1.5] 0.25 =
          Inr (newlc, [0.3, 1, 0.2])"
    and len: "length newlc = 3"
    and el: "\<forall>i < 3. newlc ! i =
          (if [0.3, 1, 0.2 :: real] ! i < 0.25 then Some 0
           else if [0.3, 1, 0.2 :: real] ! i = 0 then None
           else Some ([3, 4, 5] ! i / [0.3, 1, 0.2] ! i * 1))"
    by auto
  from el have "newlc ! 0 = Some 10" "newlc ! 1 = Some 4" "newlc ! 2 = Some 0"
    by (simp_all add: numeral_nat)
  with len have "newlc = [Some 10, Some 4, Some 0]"
    by (auto simp: list_eq_iff_nth_eq less_Suc_eq numeral_nat)
  with n show ?thesis by simp
qed


subsection \<open>Errors\<close>

text \<open>
  C5 (as amended). A call with \<^verbatim>\<open>len(events) != len(priors)\<close> fails on the
  assertion of line 46, before anything is computed; this is the only check of the
  input. A \<^verbatim>\<open>times\<close> array that is not ascending makes the call fail whenever
  \<^verbatim>\<open>dt\<close> is absent or a scalar, though not up front: the edges then decrease and
  \<^verbatim>\<open>np.histogram\<close> refuses them, after the filter and the clamping.
\<close>

theorem input_checks:
  "(length events \<noteq> length priors \<longrightarrow>
      get_livetime_per_bin tms events priors dt gti = Inl AssertionError) \<and>
   (\<not> sorted tms \<longrightarrow> (\<forall>ds. dt \<noteq> DtArray ds) \<longrightarrow>
      isl (get_livetime_per_bin tms events priors dt gti))"
proof (intro conjI impI)
  assume "length events \<noteq> length priors"
  then show "get_livetime_per_bin tms events priors dt gti = Inl AssertionError"
    by (simp add: get_livetime_per_bin_stages)
next
  assume u: "\<not> sorted tms" and a: "\<forall>ds. dt \<noteq> DtArray ds"
  from u have ne: "tms \<noteq> []" by auto
  have "resolve_dt tms dt = None \<or> (\<exists>d. resolve_dt tms dt = Some (replicate (length tms) d))"
    using a by (cases dt) (auto simp: resolve_dt_def split: option.splits)
  then show "isl (get_livetime_per_bin tms events priors dt gti)"
  proof
    assume "resolve_dt tms dt = None"
    then show ?thesis by (simp add: get_livetime_per_bin_stages)
  next
    assume "\<exists>d. resolve_dt tms dt = Some (replicate (length tms) d)"
    then obtain d where d: "resolve_dt tms dt = Some (replicate (length tms) d)" ..
    show ?thesis
      using ne u
      by (simp add: get_livetime_per_bin_stages d make_tbins_replicate bin_rows_unsorted unsorted_edges
          del: map_append map_map)
  qed
qed

text \<open>Both hypotheses at concrete arrays: a missing prior, and two times in
  descending order.\<close>

theorem input_checks_witness:
  "get_livetime_per_bin [0.5, 1.5] [1] [] (DtScalar 1) None = Inl AssertionError \<and>
   isl (get_livetime_per_bin [2, 1] [1] [0.2] (DtScalar 1) None)"
proof -
  have a: "length [1::real] \<noteq> length ([] :: real list)" by simp
  have b: "\<not> sorted [2, 1 :: real]" by simp
  have c: "\<forall>ds. DtScalar 1 \<noteq> DtArray ds" by simp
  from input_checks [of "[1]" "[]" "[0.5, 1.5]" "DtScalar 1" None] a
  have 1: "get_livetime_per_bin [0.5, 1.5] [1] [] (DtScalar 1) None = Inl AssertionError"
    by blast
  from input_checks [of "[1]" "[0.2]" "[2, 1]" "DtScalar 1" None] b c
  have 2: "isl (get_livetime_per_bin [2, 1] [1] [0.2] (DtScalar 1) None)"
    by blast
  from 1 2 show ?thesis by blast
qed

text \<open>
  C5 as stated fails: neither the sign of the priors nor the order of \<^verbatim>\<open>times\<close>
  is checked. Three calls that return. In the first the priors -0.1 and 0.3 fall
  into the same bin, whose livetime 0.2 is not negative, so that no assertion on
  the livetimes could fail either. In the second the prior -1 puts the start of the
  livetime after the event, in a later bin; neither the first pass nor the loop takes
  the event, and the result is all zero. In the third \<^verbatim>\<open>times\<close> is descending and \<^verbatim>\<open>dt\<close> an array:
  the edges 0, 0.5, 1 are ascending all the same.
\<close>

theorem unchecked_input_returned:
  "get_livetime_per_bin [0.5, 1.5, 2.5] [1.2, 1.4] [- 0.1, 0.3] (DtScalar 1) None = Inr [0, 0.2, 0] \<and>
   get_livetime_per_bin [0.5, 1.5, 2.5] [1.2] [- 1] (DtScalar 1) None = Inr [0, 0, 0] \<and>
   get_livetime_per_bin [1, 0.75] [0.3] [0.1] (DtArray [2, 0.5]) None = Inr [0.1, 0]"
proof -
  have 1: "get_livetime_per_bin [0.5, 1.5, 2.5] [1.2, 1.4] [- 0.1, 0.3] (DtScalar 1) None = Inr [0, 0.2, 0]"
    by (simp add: run_defs numeral_nat)
  have 2: "get_livetime_per_bin [0.5, 1.5, 2.5] [1.2] [- 1] (DtScalar 1) None = Inr [0, 0, 0]"
    by (simp add: run_defs numeral_nat)
  have 3: "get_livetime_per_bin [1, 0.75] [0.3] [0.1] (DtArray [2, 0.5]) None = Inr [0.1, 0]"
    by (simp add: run_defs numeral_nat)
  from 1 2 3 show ?thesis by blast
qed

text \<open>
  C10. With no event at all the call fails at \<^verbatim>\<open>events[0]\<close> (IndexError). When
  no event passes the filter of line 72, that is when no event has its time after
  the first edge and its livetime start before the last edge, the call fails with
  the ValueError of \<^verbatim>\<open>np.max\<close> on an empty array (or of the broadcasting of
  \<^verbatim>\<open>times - dt / 2\<close>); it never returns an array of zeros.
\<close>

theorem no_event_in_range:
  "get_livetime_per_bin tms [] [] dt gti = Inl IndexError \<and>
   (length events = length priors \<longrightarrow> events \<noteq> [] \<longrightarrow> tms \<noteq> [] \<longrightarrow>
    (\<forall>dts. resolve_dt tms dt = Some dts \<longrightarrow> dts \<noteq> [] \<and>
       (\<forall>(e, p) \<in> set (zip events priors).
          \<not> (hd tms - hd dts / 2 < e \<and> e - p < last tms + last dts / 2))) \<longrightarrow>
    get_livetime_per_bin tms events priors dt gti = Inl ValueError)"
proof (intro conjI impI)
  show "get_livetime_per_bin tms [] [] dt gti = Inl IndexError"
    by (simp add: get_livetime_per_bin_stages)
next
  assume len: "length events = length priors" and ev: "events \<noteq> []" and tm: "tms \<noteq> []"
    and out: "\<forall>dts. resolve_dt tms dt = Some dts \<longrightarrow> dts \<noteq> [] \<and>
       (\<forall>(e, p) \<in> set (zip events priors).
          \<not> (hd tms - hd dts / 2 < e \<and> e - p < last tms + last dts / 2))"
  show "get_livetime_per_bin tms events priors dt gti = Inl ValueError"
  proof (cases "resolve_dt tms dt")
    case None
    with len ev show ?thesis by (simp add: get_livetime_per_bin_stages)
  next
    case (Some dts)
    with out have dn: "dts \<noteq> []"
      and far: "\<forall>(e, p) \<in> set (zip events priors).
          \<not> (hd tms - hd dts / 2 < e \<and> e - p < last tms + last dts / 2)"
      by blast+
    show ?thesis
    proof (cases "make_tbins tms dts (hd events)")
      case (Inl e)
      with make_tbins_error [OF Inl tm dn] len ev Some show ?thesis
        by (simp add: get_livetime_per_bin_stages)
    next
      case (Inr tbins)
      have "\<not> in_range tbins r" if "r \<in> set (shift_rows (hd events) events priors)" for r
      proof -
        from shift_rows_set [OF that] obtain e p where
          ep: "(e, p) \<in> set (zip events priors)" and
          r: "ev_fl r = e - hd events" "livetime_starts r = e - hd events - p"
          by auto
        from far ep have "\<not> (hd tms - hd dts / 2 < e \<and> e - p < last tms + last dts / 2)"
          by auto
        then show ?thesis
          using r make_tbins_ends(1,2) [OF Inr] by (auto simp: in_range_def)
      qed
      then have "normalize_rows tbins (shift_rows (hd events) events priors) = []"
        by (simp add: normalize_rows_def filter_empty_conv)
      with len ev Some Inr show ?thesis
        by (simp add: get_livetime_per_bin_stages bin_rows_no_rows)
    qed
  qed
qed

text \<open>An instance with one event after the last edge.\<close>

theorem no_event_in_range_witness:
  "length [5::real] = length [1::real] \<and>
   resolve_dt [0.5, 1.5] (DtScalar 1) = Some [1, 1] \<and>
   get_livetime_per_bin [0.5, 1.5] [5] [1] (DtScalar 1) None = Inl ValueError"
proof -
  have h: "\<forall>dts. resolve_dt [0.5, 1.5] (DtScalar 1) = Some dts \<longrightarrow> dts \<noteq> [] \<and>
       (\<forall>(e, p) \<in> set (zip [5] [1]).
          \<not> (hd [0.5, 1.5 :: real] - hd dts / 2 < e \<and> e - p < last [0.5, 1.5 :: real] + last dts / 2))"
    by (auto simp: resolve_dt_def numeral_2_eq_2)
  from no_event_in_range [of "[0.5, 1.5]" "DtScalar 1" None "[5]" "[1]"] h
  have "get_livetime_per_bin [0.5, 1.5] [5] [1] (DtScalar 1) None = Inl ValueError"
    by simp
  then show ?thesis by (simp add: resolve_dt_def numeral_2_eq_2)
qed

text \<open>
  C9. The result of \<^verbatim>\<open>get_livetime_per_bin\<close> does not depend on the argument
  \<^verbatim>\<open>gti\<close>: for all inputs, every value of \<^verbatim>\<open>gti\<close> gives the result of the call
  with \<^verbatim>\<open>gti=None\<close>, error or array.
\<close>

theorem gti_noninterference:
  "get_livetime_per_bin tms events priors dt gti =
   get_livetime_per_bin tms events priors dt None"
  by (simp add: get_livetime_per_bin_stages)

end
